theory Spec2Isabelle
  imports Main "HOL-Library.AList"
begin

section \<open>Python strings\<close>

text \<open>
  A Python string is a sequence of Unicode code points, here a list of natural numbers;
  \<open>ascii\<close> reads a literal as such a text. The names of columns and the paths of files
  stay literals.

  The character classes of Python follow the Unicode tables. Their ASCII part is
  written out below. The tables for the code points from 128 on are not part of the
  repository; they are the parameter \<open>u\<close>, a record that says which of these code points
  are whitespace (for \<open>str.split\<close> and \<open>str.strip\<close>), which are alphanumeric (for the
  \<open>\w\<close> of regular expressions), and what \<open>str.lower\<close> puts for such a code point
  between the text before it and the text after it (the lower-case form of a capital
  sigma depends on its neighbours, and a form may have several code points).
\<close>

type_synonym ustring = "nat list"

definition ascii :: "string \<Rightarrow> ustring" where
  "ascii s = map of_char s"

record unicode =
  u_space :: "nat \<Rightarrow> bool"
  u_alnum :: "nat \<Rightarrow> bool"
  u_lower :: "ustring \<Rightarrow> nat \<Rightarrow> ustring \<Rightarrow> ustring"

definition is_upper :: "nat \<Rightarrow> bool" where
  \<comment> \<open>the ASCII capital letters\<close>
  "is_upper c = (65 \<le> c \<and> c \<le> 90)"

definition is_alpha :: "nat \<Rightarrow> bool" where
  \<comment> \<open>the regular expression class \<open>[a-zA-Z]\<close>, which is ASCII whatever the flags\<close>
  "is_alpha c = ((65 \<le> c \<and> c \<le> 90) \<or> (97 \<le> c \<and> c \<le> 122))"

definition is_digit :: "nat \<Rightarrow> bool" where
  "is_digit c = (48 \<le> c \<and> c \<le> 57)"

definition is_word :: "unicode \<Rightarrow> nat \<Rightarrow> bool" where
  \<comment> \<open>the class \<open>\w\<close> that decides where \<open>\b\<close> holds: alphanumeric, or the underscore\<close>
  "is_word u c =
     (if c < 128 then is_alpha c \<or> is_digit c \<or> c = 95 else u_alnum u c)"

definition is_space :: "unicode \<Rightarrow> nat \<Rightarrow> bool" where
  \<comment> \<open>in ASCII: tab, line feed, VT, FF, CR, the separators 28 to 31 and the space\<close>
  "is_space u c =
     (if c < 128 then (9 \<le> c \<and> c \<le> 13) \<or> (28 \<le> c \<and> c \<le> 32) else u_space u c)"

definition lower_ascii :: "nat \<Rightarrow> nat" where
  "lower_ascii c = (if is_upper c then c + 32 else c)"

fun lower_from :: "unicode \<Rightarrow> ustring \<Rightarrow> ustring \<Rightarrow> ustring" where
  "lower_from u before [] = []"
| "lower_from u before (c # cs) =
     (if c < 128 then [lower_ascii c] else u_lower u before c cs)
     @ lower_from u (before @ [c]) cs"

definition lower :: "unicode \<Rightarrow> ustring \<Rightarrow> ustring" where
  "lower u s = lower_from u [] s"

definition strip :: "unicode \<Rightarrow> ustring \<Rightarrow> ustring" where
  "strip u s = rev (dropWhile (is_space u) (rev (dropWhile (is_space u) s)))"

text \<open>
  \<open>str.split()\<close> with no argument: a scan that closes the current token at each
  whitespace character and never yields an empty token.
\<close>

fun split_from :: "unicode \<Rightarrow> ustring \<Rightarrow> ustring \<Rightarrow> ustring list" where
  "split_from u cur [] = (if cur = [] then [] else [cur])"
| "split_from u cur (c # cs) =
     (if is_space u c
      then (if cur = [] then split_from u [] cs else cur # split_from u [] cs)
      else split_from u (cur @ [c]) cs)"

definition split :: "unicode \<Rightarrow> ustring \<Rightarrow> ustring list" where
  "split u s = split_from u [] s"

fun join :: "ustring \<Rightarrow> ustring list \<Rightarrow> ustring" where
  "join sep [] = []"
| "join sep [x] = x"
| "join sep (x # y # ys) = x @ sep @ join sep (y # ys)"

definition digit_char :: "nat \<Rightarrow> nat" where
  "digit_char d = 48 + d mod 10"

function digits :: "nat \<Rightarrow> ustring" where
  "digits n = (if n < 10 then [digit_char n] else digits (n div 10) @ [digit_char n])"
  by pat_completeness auto
termination
  by (relation "measure id") auto

declare digits.simps [simp del]

definition show_int :: "int \<Rightarrow> ustring" where
  "show_int i = (if i < 0 then 45 # digits (nat (- i)) else digits (nat i))"

definition pad2 :: "nat \<Rightarrow> ustring" where
  "pad2 n = (if n < 10 then 48 # digits n else digits n)"

section \<open>Cells, columns and frames\<close>

text \<open>
  A timestamp is kept at day resolution; the program reads only its year.
\<close>

record timestamp =
  ts_year :: int
  ts_month :: nat
  ts_day :: nat

text \<open>
  A cell of a table: the null value (\<open>NaN\<close>, \<open>NaT\<close> and \<open>None\<close> are all null for
  \<open>notnull\<close>, \<open>dropna\<close> and \<open>fillna\<close>), a text, a number or a timestamp. The numbers
  the program computes are years and counts, so a number is an integer here; the
  year column is stored by the library as floating point holding integral values.
\<close>

datatype cell = NA | Str ustring | Num int | Time timestamp

text \<open>
  A data frame: the row labels and the columns in their order, every column a list of
  cells. \<open>df[c]\<close> reads a column (a missing column raises \<open>KeyError\<close>, here \<open>None\<close>);
  \<open>df[c] = v\<close> replaces the column in place or appends a new one.
\<close>

record frame =
  index :: "nat list"
  columns :: "(string \<times> cell list) list"

definition getitem :: "frame \<Rightarrow> string \<Rightarrow> cell list option" where
  "getitem f c = map_of (columns f) c"

definition setitem :: "frame \<Rightarrow> string \<Rightarrow> cell list \<Rightarrow> frame" where
  "setitem f c v = f\<lparr>columns := AList.update c v (columns f)\<rparr>"

definition select :: "bool list \<Rightarrow> 'a list \<Rightarrow> 'a list" where
  \<comment> \<open>the entries at which the mask is true\<close>
  "select keep xs = map snd (filter fst (zip keep xs))"

definition boolean_index :: "frame \<Rightarrow> bool list \<Rightarrow> frame" where
  \<comment> \<open>\<open>df[mask]\<close>: a new frame with the rows at which the mask is true\<close>
  "boolean_index f keep =
     \<lparr>index = select keep (index f),
      columns = map (\<lambda>(c, xs). (c, select keep xs)) (columns f)\<rparr>"

definition notnull :: "cell list \<Rightarrow> bool list" where
  "notnull xs = map (\<lambda>x. x \<noteq> NA) xs"

definition dropna :: "cell list \<Rightarrow> cell list" where
  "dropna xs = filter (\<lambda>x. x \<noteq> NA) xs"

definition fillna :: "cell list \<Rightarrow> cell \<Rightarrow> cell list" where
  "fillna xs v = map (\<lambda>x. if x = NA then v else x) xs"

text \<open>
  \<open>str(x)\<close> of a cell. A number renders as its decimal digits (the library prints a
  floating-point year with a trailing \<open>.0\<close>, which adds neither a letter nor a space).
\<close>

fun py_str :: "cell \<Rightarrow> ustring" where
  "py_str NA = ascii ''nan''"
| "py_str (Str s) = s"
| "py_str (Num n) = show_int n"
| "py_str (Time t) =
     show_int (ts_year t) @ ascii ''-'' @ pad2 (ts_month t) @ ascii ''-'' @ pad2 (ts_day t)
     @ ascii '' 00:00:00''"

definition astype_str :: "cell list \<Rightarrow> ustring list" where
  "astype_str xs = map py_str xs"

text \<open>
  \<open>pd.to_datetime(column, errors='coerce')\<close>. The library's date parser is not part of
  the repository: it is the parameter \<open>conv\<close>, the conversion of one non-null value,
  \<open>None\<close> when the value cannot be read as a date. A null stays null, and with
  \<open>errors='coerce'\<close> a value that cannot be read becomes null instead of raising.
  The values are converted one by one.
\<close>

definition to_datetime :: "(cell \<Rightarrow> timestamp option) \<Rightarrow> cell list \<Rightarrow> cell list" where
  "to_datetime conv xs =
     map (\<lambda>x. case x of
                 NA \<Rightarrow> NA
               | _ \<Rightarrow> (case conv x of None \<Rightarrow> NA | Some t \<Rightarrow> Time t)) xs"

definition dt_year :: "cell list \<Rightarrow> cell list" where
  \<comment> \<open>\<open>.dt.year\<close> of a datetime column: the year, null where the date is null\<close>
  "dt_year xs = map (\<lambda>x. case x of Time t \<Rightarrow> Num (ts_year t) | _ \<Rightarrow> NA) xs"

primrec nums :: "cell list \<Rightarrow> int list" where
  "nums [] = []"
| "nums (x # xs) = (case x of Num n \<Rightarrow> n # nums xs | _ \<Rightarrow> nums xs)"

text \<open>
  \<open>Series.mode()\<close> of a numeric column: nulls are dropped, the values with the highest
  count are collected and returned sorted ascending; the result is empty when the
  column has no value.
\<close>

definition mode :: "cell list \<Rightarrow> cell list" where
  "mode xs =
     (let ys = nums xs;
          top = fold max (map (count_list ys) ys) 0
      in map Num (sort (remdups (filter (\<lambda>y. count_list ys y = top) ys))))"

text \<open>
  The string methods of a text column. The accessor \<open>.str\<close> raises on a column of a
  numeric dtype, which the CSV reader gives to a column that holds no text at all; the
  dtype of a column is not modelled, and such a journal column is outside the model.
\<close>

definition str_lower :: "unicode \<Rightarrow> cell list \<Rightarrow> cell list" where
  \<comment> \<open>\<open>.str.lower()\<close>: a cell that is not a text gives null\<close>
  "str_lower u xs = map (\<lambda>x. case x of Str s \<Rightarrow> Str (lower u s) | _ \<Rightarrow> NA) xs"

definition str_strip :: "unicode \<Rightarrow> cell list \<Rightarrow> cell list" where
  "str_strip u xs = map (\<lambda>x. case x of Str s \<Rightarrow> Str (strip u s) | _ \<Rightarrow> NA) xs"

definition word_count :: "unicode \<Rightarrow> cell \<Rightarrow> cell" where
  \<comment> \<open>\<open>lambda x: len(str(x).split()) if pd.notnull(x) else 0\<close>\<close>
  "word_count u x = (if x \<noteq> NA then Num (int (length (split u (py_str x)))) else Num 0)"

section \<open>Objects and errors\<close>

text \<open>
  Frames are objects: a variable holds a reference, and an assignment to a column
  changes the object that every holder of the reference sees. The store maps each
  reference to its frame; references below \<open>next_ref\<close> are allocated. An operation
  takes the store and returns the store it leaves, with an error or a value.
\<close>

datatype error =
  FileNotFoundError | PermissionError | NotADirectoryError | IsADirectoryError | OSError
  | ParserError | EmptyDataError | UnicodeDecodeError
  | AttributeError | KeyError | TypeError

record world =
  objs :: "nat \<Rightarrow> frame"
  next_ref :: nat

type_synonym 'a action = "world \<Rightarrow> world \<times> (error + 'a)"

definition and_then :: "'a action \<Rightarrow> ('a \<Rightarrow> 'b action) \<Rightarrow> 'b action" where
  \<comment> \<open>one statement after another; an exception skips the rest\<close>
  "and_then m k w = (case m w of (w', Inl e) \<Rightarrow> (w', Inl e) | (w', Inr x) \<Rightarrow> k x w')"

definition new_frame :: "frame \<Rightarrow> nat action" where
  "new_frame f w = (w\<lparr>objs := (objs w)(next_ref w := f), next_ref := Suc (next_ref w)\<rparr>, Inr (next_ref w))"

definition get_frame :: "nat \<Rightarrow> frame action" where
  "get_frame r w = (w, Inr (objs w r))"

definition copy :: "nat option \<Rightarrow> nat action" where
  \<comment> \<open>\<open>self.df.copy()\<close>: a new object with the same contents; \<open>None\<close> has no \<open>copy\<close>\<close>
  "copy d w = (case d of None \<Rightarrow> (w, Inl AttributeError) | Some r \<Rightarrow> new_frame (objs w r) w)"

definition get_col :: "nat \<Rightarrow> string \<Rightarrow> (cell list) action" where
  "get_col r c w = (case getitem (objs w r) c of None \<Rightarrow> (w, Inl KeyError) | Some xs \<Rightarrow> (w, Inr xs))"

definition set_col :: "nat \<Rightarrow> string \<Rightarrow> cell list \<Rightarrow> unit action" where
  "set_col r c v w = (w\<lparr>objs := (objs w)(r := setitem (objs w r) c v)\<rparr>, Inr ())"

definition first_item :: "cell list \<Rightarrow> cell action" where
  \<comment> \<open>\<open>series[0]\<close> on the result of \<open>mode()\<close>: an empty result has no label 0\<close>
  "first_item xs w = (case xs of [] \<Rightarrow> (w, Inl KeyError) | x # _ \<Rightarrow> (w, Inr x))"

section \<open>The analyzer\<close>

record analyzer =
  df :: "nat option"
  file_path :: string

definition clean_data ::
  "unicode \<Rightarrow> (cell \<Rightarrow> timestamp option) \<Rightarrow> analyzer \<Rightarrow> nat action" where
  "clean_data u conv self =
     and_then (copy (df self)) (\<lambda>df_clean.
     and_then (get_col df_clean ''publish_time'') (\<lambda>pt.
     and_then (set_col df_clean ''publish_time'' (to_datetime conv pt)) (\<lambda>_.
     and_then (get_col df_clean ''publish_time'') (\<lambda>dates.
     and_then (set_col df_clean ''publication_year'' (dt_year dates)) (\<lambda>_.
     and_then (get_col df_clean ''publication_year'') (\<lambda>years.
     and_then (first_item (mode years)) (\<lambda>mode_year.
     and_then (get_col df_clean ''publication_year'') (\<lambda>years.
     and_then (set_col df_clean ''publication_year'' (fillna years mode_year)) (\<lambda>_.
     and_then (get_col df_clean ''abstract'') (\<lambda>abstracts.
     and_then (set_col df_clean ''abstract_word_count'' (map (word_count u) abstracts)) (\<lambda>_.
     and_then (get_col df_clean ''journal'') (\<lambda>journals.
     and_then (set_col df_clean ''journal_clean'' (str_strip u (str_lower u journals))) (\<lambda>_.
     and_then (get_col df_clean ''title'') (\<lambda>titles.
     and_then (get_frame df_clean) (\<lambda>f.
     new_frame (boolean_index f (notnull titles)))))))))))))))))"

text \<open>
  The number of rows is the length of the index, and a row's cell in a column is the
  column's entry at the row's position. In a well-formed frame every column is as long
  as the index.
\<close>

definition nrows :: "frame \<Rightarrow> nat" where
  "nrows f = length (index f)"

definition cell_at :: "frame \<Rightarrow> string \<Rightarrow> nat \<Rightarrow> cell option" where
  "cell_at f c i =
     (case getitem f c of
        None \<Rightarrow> None
      | Some xs \<Rightarrow> if i < length xs then Some (xs ! i) else None)"

definition wf_frame :: "frame \<Rightarrow> bool" where
  "wf_frame f = list_all (\<lambda>(c, xs). length xs = length (index f)) (columns f)"

section \<open>Loading\<close>

text \<open>
  What opening a path gives is decided by the operating system, not by the repository:
  either an error (\<open>FileNotFoundError\<close> when no file has the name,
  \<open>PermissionError\<close> when the file may not be read, \<open>NotADirectoryError\<close> when a
  part of the path is a regular file, and so on) or the contents of the file. The CSV
  parser is the parameter \<open>csv\<close>; it gives a frame or an error of its own. The
  messages that \<open>load_data\<close> and \<open>clean_data\<close> print are not modelled.
\<close>

datatype fs_entry = Fails error | Contents string

definition read_csv ::
  "(string \<Rightarrow> error + frame) \<Rightarrow> (string \<Rightarrow> fs_entry) \<Rightarrow> string \<Rightarrow> nat action" where
  "read_csv csv fs path w =
     (case fs path of
        Fails e \<Rightarrow> (w, Inl e)
      | Contents s \<Rightarrow> (case csv s of Inl e \<Rightarrow> (w, Inl e) | Inr f \<Rightarrow> new_frame f w))"

text \<open>
  \<open>load_data\<close> returns the analyzer as it leaves it and the value it returns: the
  reference of the loaded frame, or \<open>None\<close> from the handler of \<open>FileNotFoundError\<close>.
  The handler catches that one exception; any other exception of \<open>read_csv\<close> goes on
  to the caller.
\<close>

definition load_data ::
  "(string \<Rightarrow> error + frame) \<Rightarrow> (string \<Rightarrow> fs_entry) \<Rightarrow> analyzer
     \<Rightarrow> (analyzer \<times> nat option) action" where
  "load_data csv fs self w =
     (case read_csv csv fs (file_path self) w of
        (w', Inl e) \<Rightarrow>
          (if e = FileNotFoundError then (w', Inr (self, None)) else (w', Inl e))
      | (w', Inr r) \<Rightarrow> (w', Inr (self\<lparr>df := Some r\<rparr>, Some r)))"

definition init ::
  "(string \<Rightarrow> error + frame) \<Rightarrow> (string \<Rightarrow> fs_entry) \<Rightarrow> string \<Rightarrow> analyzer action" where
  \<comment> \<open>\<open>__init__\<close>: the fields are set, then \<open>load_data\<close> runs and its value is dropped\<close>
  "init csv fs path w =
     (case load_data csv fs \<lparr>df = None, file_path = path\<rparr> w of
        (w', Inl e) \<Rightarrow> (w', Inl e)
      | (w', Inr (self, _)) \<Rightarrow> (w', Inr self))"

section \<open>Counting\<close>

text \<open>
  A \<open>Counter\<close> keeps its keys in the order of their first insertion. \<open>most_common(n)\<close>
  is the first \<open>n\<close> items of the items sorted by count, largest first; the sort is
  stable, so equal counts stay in insertion order, and \<open>n \<le> 0\<close> gives nothing.
\<close>

definition counter :: "'a list \<Rightarrow> ('a \<times> nat) list" where
  "counter xs = fold (\<lambda>x. AList.map_default x 1 Suc) xs []"

definition by_count_desc :: "('a \<times> nat) list \<Rightarrow> ('a \<times> nat) list" where
  "by_count_desc kv = sort_key (\<lambda>(k, c). - int c) kv"

definition most_common :: "int \<Rightarrow> ('a \<times> nat) list \<Rightarrow> ('a \<times> nat) list" where
  "most_common n kv = take (nat n) (by_count_desc kv)"

text \<open>
  \<open>Series.value_counts()\<close>: nulls are dropped and the distinct values are listed with
  their counts, largest count first. The library leaves the order of equal counts
  open; the model keeps them in the order of first occurrence, and no statement below
  depends on that order.
\<close>

definition value_counts :: "cell list \<Rightarrow> (cell \<times> nat) list" where
  "value_counts xs = by_count_desc (counter (dropna xs))"

definition head :: "int \<Rightarrow> 'a list \<Rightarrow> 'a list" where
  \<comment> \<open>\<open>.head(n)\<close> is \<open>iloc[:n]\<close>: a negative \<open>n\<close> drops the last \<open>-n\<close> entries\<close>
  "head n xs = take (nat (if n < 0 then int (length xs) + n else n)) xs"

fun num_val :: "cell \<Rightarrow> int" where
  "num_val (Num n) = n"
| "num_val _ = 0"

definition is_number :: "cell \<Rightarrow> bool" where
  "is_number x = (case x of Num n \<Rightarrow> True | _ \<Rightarrow> False)"

text \<open>
  \<open>sort_index()\<close> and the comparison of the index with a number: on an index of
  numbers the entries are ordered by key; a key that is not a number has no order
  with the number 2010, which raises \<open>TypeError\<close>.
\<close>

definition sort_index :: "(cell \<times> nat) list \<Rightarrow> error + (cell \<times> nat) list" where
  "sort_index kv =
     (if list_all (\<lambda>(k, c). is_number k) kv
      then Inr (sort_key (\<lambda>(k, c). num_val k) kv)
      else Inl TypeError)"

definition index_ge :: "(cell \<times> nat) list \<Rightarrow> int \<Rightarrow> bool list" where
  "index_ge kv y = map (\<lambda>(k, c). y \<le> num_val k) kv"

section \<open>The regular expression\<close>

text \<open>
  \<open>re.findall(r'\b[a-zA-Z]{3,}\b', text)\<close>. \<open>\b\<close> holds between two positions of which
  exactly one has a word character; beyond either end of the text there is none. At a
  position the expression is tried with the longest run of letters first and then with
  shorter ones down to three letters; the scan resumes behind a match, or one character
  further when there is none. \<open>prev_word\<close> says whether a word character precedes.
\<close>

definition boundary :: "unicode \<Rightarrow> bool \<Rightarrow> ustring \<Rightarrow> bool" where
  "boundary u prev_word s =
     (prev_word \<noteq> (case s of [] \<Rightarrow> False | c # _ \<Rightarrow> is_word u c))"

definition match_here :: "unicode \<Rightarrow> bool \<Rightarrow> ustring \<Rightarrow> ustring option" where
  "match_here u prev_word s =
     (if boundary u prev_word s
      then map_option (\<lambda>k. take k s)
             (find (\<lambda>k. boundary u (is_word u (last (take k s))) (drop k s))
                (rev [3 ..< Suc (length (takeWhile is_alpha s))]))
      else None)"

function findall :: "unicode \<Rightarrow> bool \<Rightarrow> ustring \<Rightarrow> ustring list" where
  "findall u prev_word s =
     (case s of
        [] \<Rightarrow> []
      | c # cs \<Rightarrow>
          (case match_here u prev_word s of
             Some m \<Rightarrow> m # findall u (is_word u (last m)) (drop (length m) s)
           | None \<Rightarrow> findall u (is_word u c) cs))"
  by pat_completeness auto
termination
proof (relation "measure (\<lambda>(u, p, s). length s)")
  show "wf (measure (\<lambda>(u, p, s). length s))" by simp
next
  fix u :: unicode and prev_word :: bool and s :: ustring and c cs m
  assume s: "s = c # cs" and m: "match_here u prev_word s = Some m"
  let ?ks = "rev [3 ..< Suc (length (takeWhile is_alpha s))]"
  from m obtain k where
    f: "find (\<lambda>k. boundary u (is_word u (last (take k s))) (drop k s)) ?ks = Some k"
    and mk: "m = take k s"
    by (auto simp: match_here_def split: if_splits)
  from f have "k \<in> set ?ks" unfolding find_Some_iff by (metis nth_mem)
  with mk have k: "m = take k s" "3 \<le> k" "k \<le> length (takeWhile is_alpha s)" by auto
  have "length (takeWhile is_alpha s) \<le> length s" by (rule length_takeWhile_le)
  with k have "0 < length m" by auto
  with s show "((u, is_word u (last m), drop (length m) s), (u, prev_word, s))
      \<in> measure (\<lambda>(u, p, s). length s)"
    by simp
next
  fix u :: unicode and prev_word :: bool and s :: ustring and c cs
  assume "s = c # cs"
  then show "((u, is_word u c, cs), (u, prev_word, s)) \<in> measure (\<lambda>(u, p, s). length s)"
    by simp
qed

declare findall.simps [simp del]

section \<open>The analyses\<close>

text \<open>
  The analyses read the cleaned frame and change nothing, so they take the frame
  itself.
\<close>

definition analyze_publications_over_time :: "frame \<Rightarrow> error + (cell \<times> nat) list" where
  "analyze_publications_over_time df_clean =
     (case getitem df_clean ''publication_year'' of
        None \<Rightarrow> Inl KeyError
      | Some years \<Rightarrow>
          (case sort_index (value_counts years) of
             Inl e \<Rightarrow> Inl e
           | Inr yearly_counts \<Rightarrow> Inr (select (index_ge yearly_counts 2010) yearly_counts)))"

definition analyze_top_journals :: "frame \<Rightarrow> int \<Rightarrow> error + (cell \<times> nat) list" where
  "analyze_top_journals df_clean top_n =
     (case getitem df_clean ''journal_clean'' of
        None \<Rightarrow> Inl KeyError
      | Some journals \<Rightarrow> Inr (head top_n (value_counts journals)))"

definition stop_words :: "ustring list" where
  "stop_words = map ascii
     [''the'', ''and'', ''of'', ''in'', ''to'', ''a'', ''for'', ''with'', ''on'', ''by'',
      ''as'', ''an'', ''from'', ''that'', ''this'', ''is'', ''are'', ''was'', ''were'', ''be'']"

text \<open>
  The dictionary \<open>filtered_words\<close> keeps the items of the counter in their order, and
  \<open>Counter(filtered_words)\<close> is a counter with the same items in the same order.
\<close>

definition analyze_word_frequency ::
  "unicode \<Rightarrow> frame \<Rightarrow> string \<Rightarrow> int \<Rightarrow> error + (ustring \<times> nat) list" where
  "analyze_word_frequency u df_clean column top_n =
     (case getitem df_clean column of
        None \<Rightarrow> Inl KeyError
      | Some xs \<Rightarrow>
          (let all_text = join (ascii '' '') (astype_str (dropna xs));
               words = findall u False (lower u all_text);
               word_freq = counter words;
               filtered_words = filter (\<lambda>(word, count). word \<notin> set stop_words) word_freq
           in Inr (most_common top_n filtered_words)))"

section \<open>Reference notions\<close>

text \<open>
  The number of whitespace-separated tokens of a text, counted without building them: a
  token starts at every character that is not whitespace and stands at the beginning
  of the text or behind a whitespace character.
\<close>

fun token_starts :: "unicode \<Rightarrow> bool \<Rightarrow> ustring \<Rightarrow> nat" where
  "token_starts u after_space [] = 0"
| "token_starts u after_space (c # cs) =
     (if \<not> is_space u c \<and> after_space then 1 else 0) + token_starts u (is_space u c) cs"

definition whitespace_token_count :: "unicode \<Rightarrow> ustring \<Rightarrow> nat" where
  "whitespace_token_count u s = token_starts u True s"

text \<open>
  The years read from the raw dates, and those of them that no other year outnumbers.
\<close>

definition parsed_years :: "(cell \<Rightarrow> timestamp option) \<Rightarrow> cell list \<Rightarrow> int list" where
  "parsed_years conv pt = nums (dt_year (to_datetime conv pt))"

definition most_frequent :: "int list \<Rightarrow> int list" where
  "most_frequent ys = filter (\<lambda>y. list_all (\<lambda>z. count_list ys z \<le> count_list ys y) ys) ys"

section \<open>Tables for the examples\<close>

text \<open>
  One possible value of the parameter \<open>u\<close>: the code points from 128 on that Python
  counts as whitespace, and the alphanumerics and the lower-case forms of Latin-1 (the
  code points below 256). It serves to run the model on concrete texts; beyond Latin-1
  it knows no letters.
\<close>

definition latin1 :: unicode where
  "latin1 =
     \<lparr>u_space = (\<lambda>c. c \<in> {133, 160, 5760, 8232, 8233, 8239, 8287, 12288}
                       \<or> (8192 \<le> c \<and> c \<le> 8202)),
      u_alnum = (\<lambda>c. c \<in> {170, 178, 179, 181, 185, 186, 188, 189, 190}
                       \<or> (192 \<le> c \<and> c \<le> 214) \<or> (216 \<le> c \<and> c \<le> 246)
                       \<or> (248 \<le> c \<and> c \<le> 255)),
      u_lower = (\<lambda>before c after.
                   if (192 \<le> c \<and> c \<le> 214) \<or> (216 \<le> c \<and> c \<le> 222) then [c + 32] else [c])\<rparr>"

text \<open>
  One possible reader for the parameter \<open>conv\<close>: it accepts a calendar date written
  \<open>YYYY-MM-DD\<close> and nothing else. It serves to run the model on concrete tables.
\<close>

definition digit_val :: "nat \<Rightarrow> nat" where
  "digit_val c = c - 48"

definition days_in_month :: "int \<Rightarrow> nat \<Rightarrow> nat" where
  "days_in_month y m =
     (if m = 2 then (if y mod 4 = 0 \<and> (y mod 100 \<noteq> 0 \<or> y mod 400 = 0) then 29 else 28)
      else if m \<in> {4, 6, 9, 11} then 30 else 31)"

definition iso_date :: "ustring \<Rightarrow> timestamp option" where
  "iso_date s =
     (case s of
        [y1, y2, y3, y4, h1, m1, m2, h2, d1, d2] \<Rightarrow>
          (let y = int (1000 * digit_val y1 + 100 * digit_val y2 + 10 * digit_val y3 + digit_val y4);
               m = 10 * digit_val m1 + digit_val m2;
               d = 10 * digit_val d1 + digit_val d2
           in if list_all is_digit [y1, y2, y3, y4, m1, m2, d1, d2]
                 \<and> h1 = 45 \<and> h2 = 45
                 \<and> 1 \<le> m \<and> m \<le> 12 \<and> 1 \<le> d \<and> d \<le> days_in_month y m
              then Some \<lparr>ts_year = y, ts_month = m, ts_day = d\<rparr>
              else None)
      | _ \<Rightarrow> None)"

definition iso_conv :: "cell \<Rightarrow> timestamp option" where
  "iso_conv x = (case x of Str s \<Rightarrow> iso_date s | Time t \<Rightarrow> Some t | _ \<Rightarrow> None)"

text \<open>A store that holds one frame, at reference 0, and an analyzer that refers to it.\<close>

definition store_with :: "frame \<Rightarrow> world" where
  "store_with f = \<lparr>objs = (\<lambda>_. \<lparr>index = [], columns = []\<rparr>)(0 := f), next_ref = 1\<rparr>"

definition analyzer_0 :: analyzer where
  "analyzer_0 = \<lparr>df = Some 0, file_path = ''data/metadata.csv''\<rparr>"

text \<open>The two-row table of the specification's example, and what cleaning makes of it.\<close>

definition example_raw :: frame where
  "example_raw =
     \<lparr>index = [0, 1],
      columns =
        [(''title'', [Str (ascii ''A''), NA]),
         (''abstract'', [Str (ascii ''one two three''), NA]),
         (''journal'', [Str (ascii '' NEJM ''), Str (ascii ''Lancet'')]),
         (''publish_time'', [Str (ascii ''2021-03-01''), Str (ascii ''bad-date'')])]\<rparr>"

definition example_clean :: "timestamp \<Rightarrow> frame" where
  "example_clean t =
     \<lparr>index = [0],
      columns =
        [(''title'', [Str (ascii ''A'')]),
         (''abstract'', [Str (ascii ''one two three'')]),
         (''journal'', [Str (ascii '' NEJM '')]),
         (''publish_time'', [Time t]),
         (''publication_year'', [Num 2021]),
         (''abstract_word_count'', [Num 3]),
         (''journal_clean'', [Str (ascii ''nejm'')])]\<rparr>"

text \<open>A table in which no date can be read, and one in which two years are tied.\<close>

definition undated_raw :: frame where
  "undated_raw =
     \<lparr>index = [0, 1],
      columns =
        [(''title'', [Str (ascii ''A''), Str (ascii ''B'')]),
         (''abstract'', [Str (ascii ''one two three''), NA]),
         (''journal'', [Str (ascii ''NEJM''), Str (ascii ''Lancet'')]),
         (''publish_time'', [Str (ascii ''bad-date''), NA])]\<rparr>"

definition tied_raw :: frame where
  "tied_raw =
     \<lparr>index = [0, 1, 2],
      columns =
        [(''title'', [Str (ascii ''A''), Str (ascii ''B''), Str (ascii ''C'')]),
         (''abstract'', [NA, NA, NA]),
         (''journal'', [Str (ascii ''x''), Str (ascii ''y''), Str (ascii ''z'')]),
         (''publish_time'', [Str (ascii ''2021-03-01''), Str (ascii ''2020-07-15''), Str (ascii ''unknown'')])]\<rparr>"

definition example_world :: world where
  "example_world = fst (clean_data latin1 iso_conv analyzer_0 (store_with example_raw))"

definition tied_world :: world where
  "tied_world = fst (clean_data latin1 iso_conv analyzer_0 (store_with tied_raw))"

text \<open>
  An abstract whose first two words are separated by a no-break space (code point 160).
\<close>

definition nbsp_abstract :: ustring where
  "nbsp_abstract = ascii ''one'' @ [160] @ ascii ''two three''"

definition nbsp_raw :: frame where
  "nbsp_raw =
     \<lparr>index = [0],
      columns =
        [(''title'', [Str (ascii ''A'')]),
         (''abstract'', [Str nbsp_abstract]),
         (''journal'', [Str (ascii ''NEJM'')]),
         (''publish_time'', [Str (ascii ''2021-03-01'')])]\<rparr>"

definition nbsp_world :: world where
  "nbsp_world = fst (clean_data latin1 iso_conv analyzer_0 (store_with nbsp_raw))"

section \<open>Reference notions for the analyses\<close>

text \<open>
  The distinct entries of a list in the order of their first occurrence, and the tally
  that lists each with the number of its occurrences.
\<close>

fun first_occ :: "'a list \<Rightarrow> 'a list" where
  "first_occ [] = []"
| "first_occ (x # xs) = x # filter (\<lambda>y. y \<noteq> x) (first_occ xs)"

definition tally :: "'a list \<Rightarrow> ('a \<times> nat) list" where
  "tally xs = map (\<lambda>x. (x, count_list xs x)) (first_occ xs)"

definition count_desc :: "('a \<times> nat) list \<Rightarrow> bool" where
  \<comment> \<open>the counts never increase along the list\<close>
  "count_desc kv = sorted_wrt (\<lambda>a b. snd b \<le> snd a) kv"

definition keys_at_least :: "int \<Rightarrow> (cell \<times> nat) list \<Rightarrow> bool" where
  \<comment> \<open>every key is a number that is at least the given year\<close>
  "keys_at_least y kv = list_all (\<lambda>(k, c). is_number k \<and> y \<le> num_val k) kv"

definition keys_increasing :: "(cell \<times> nat) list \<Rightarrow> bool" where
  "keys_increasing kv = sorted_wrt (<) (map (\<lambda>(k, c). num_val k) kv)"

section \<open>Example files and tables for the analyses\<close>

text \<open>
  Three file systems: one without files, one whose files may not be read, and one in
  which every path leads through a regular file. The parser below reads no table.
\<close>

definition no_files :: "string \<Rightarrow> fs_entry" where
  "no_files path = Fails FileNotFoundError"

definition locked_files :: "string \<Rightarrow> fs_entry" where
  "locked_files path = Fails PermissionError"

definition blocked_files :: "string \<Rightarrow> fs_entry" where
  "blocked_files path = Fails NotADirectoryError"

definition no_csv :: "string \<Rightarrow> error + frame" where
  "no_csv s = Inl ParserError"

definition empty_store :: world where
  "empty_store = \<lparr>objs = (\<lambda>_. \<lparr>index = [], columns = []\<rparr>), next_ref = 0\<rparr>"

definition fresh_analyzer :: analyzer where
  "fresh_analyzer = \<lparr>df = None, file_path = ''data/metadata.csv''\<rparr>"

definition old_raw :: frame where
  "old_raw =
     \<lparr>index = [0],
      columns =
        [(''title'', [Str (ascii ''SARS'')]),
         (''abstract'', [NA]),
         (''journal'', [Str (ascii ''Virology'')]),
         (''publish_time'', [Str (ascii ''2012-05-05'')])]\<rparr>"

definition old_world :: world where
  "old_world = fst (clean_data latin1 iso_conv analyzer_0 (store_with old_raw))"

section \<open>Reference notions for the word frequency\<close>

text \<open>
  The maximal runs of characters of a class, in their order in the text.
\<close>

fun runs_from :: "(nat \<Rightarrow> bool) \<Rightarrow> ustring \<Rightarrow> ustring \<Rightarrow> ustring list" where
  "runs_from P cur [] = (if cur = [] then [] else [cur])"
| "runs_from P cur (c # cs) =
     (if P c then runs_from P (cur @ [c]) cs
      else (if cur = [] then [] else [cur]) @ runs_from P [] cs)"

definition runs :: "(nat \<Rightarrow> bool) \<Rightarrow> ustring \<Rightarrow> ustring list" where
  "runs P s = runs_from P [] s"

text \<open>
  Two tokenizers. \<open>alpha_runs\<close> follows the words of the specification: the runs of
  letters \<open>a\<close> to \<open>z\<close> of length at least 3. \<open>whole_words\<close> takes the runs of word
  characters (alphanumerics of any script, underscore) and keeps those that consist of
  the letters \<open>a\<close> to \<open>z\<close> only and have length at least 3: a run of such letters that
  touches a digit, an underscore or a letter beyond \<open>a\<close> to \<open>z\<close> is no token.
\<close>

definition alpha_runs :: "ustring \<Rightarrow> ustring list" where
  "alpha_runs s = filter (\<lambda>w. 3 \<le> length w) (runs is_alpha s)"

definition whole_word :: "ustring \<Rightarrow> bool" where
  "whole_word w = (3 \<le> length w \<and> list_all is_alpha w)"

definition whole_words :: "unicode \<Rightarrow> ustring \<Rightarrow> ustring list" where
  "whole_words u s = filter whole_word (runs (is_word u) s)"

text \<open>
  The word frequency as the specification words it, for a given tokenizer: the non-null
  values joined and lowercased, tokenized, the stop words removed; the tally of the
  tokens in the order of first occurrence, sorted by count with the largest first and
  equal counts left in that order; the first \<open>n\<close> entries.
\<close>

definition word_tokens ::
  "(ustring \<Rightarrow> ustring list) \<Rightarrow> unicode \<Rightarrow> cell list \<Rightarrow> ustring list" where
  "word_tokens tokenize u xs =
     filter (\<lambda>w. w \<notin> set stop_words)
       (tokenize (lower u (join (ascii '' '') (astype_str (dropna xs)))))"

definition word_frequency_by ::
  "(ustring \<Rightarrow> ustring list) \<Rightarrow> unicode \<Rightarrow> cell list \<Rightarrow> int \<Rightarrow> (ustring \<times> nat) list" where
  "word_frequency_by tokenize u xs n =
     take (nat n) (by_count_desc (tally (word_tokens tokenize u xs)))"

definition cat_frame :: frame where
  "cat_frame = \<lparr>index = [0], columns = [(''title'', [Str (ascii ''the cat sat'')])]\<rparr>"

definition covid_frame :: frame where
  "covid_frame = \<lparr>index = [0], columns = [(''title'', [Str (ascii ''COVID19 outbreak'')])]\<rparr>"

text \<open>A title with a letter beyond ASCII: \<open>caf\<close>, the code point 233 (e acute), \<open>bar\<close>.\<close>

definition cafe_title :: ustring where
  "cafe_title = ascii ''caf'' @ [233] @ ascii '' bar''"

definition cafe_frame :: frame where
  "cafe_frame = \<lparr>index = [0], columns = [(''title'', [Str cafe_title])]\<rparr>"

section \<open>Frames and the store\<close>

lemma getitem_setitem:
  "getitem (setitem f c v) c' = (if c' = c then Some v else getitem f c')"
  by (simp add: getitem_def setitem_def update_conv')

lemma getitem_boolean_index:
  "getitem (boolean_index f keep) c = map_option (select keep) (getitem f c)"
  by (simp add: getitem_def boolean_index_def map_of_map)

lemma index_setitem: "index (setitem f c v) = index f"
  by (simp add: setitem_def)

lemma index_boolean_index: "index (boolean_index f keep) = select keep (index f)"
  by (simp add: boolean_index_def)

lemmas action_defs = and_then_def copy_def new_frame_def get_col_def set_col_def
  get_frame_def first_item_def

lemma clean_data_frame:
  "r' < next_ref w \<Longrightarrow> objs (fst (clean_data u conv self w)) r' = objs w r'"
  unfolding clean_data_def action_defs
  by (auto split: option.splits list.splits)

section \<open>Splitting and the mode\<close>

lemma length_split_from:
  "length (split_from u cur s) = (if cur = [] then 0 else 1) + token_starts u (cur = []) s"
  by (induction s arbitrary: cur) auto

lemma length_split: "length (split u s) = whitespace_token_count u s"
  by (simp add: split_def whitespace_token_count_def length_split_from)

lemma fold_max_Max: "fold max xs (a::nat) = Max (set (a # xs))"
  using Max.set_eq_fold [of a xs] by simp

lemma top_count_iff:
  assumes "y \<in> set ys"
  shows "count_list ys y = fold max (map (count_list ys) ys) 0
           \<longleftrightarrow> (\<forall>z\<in>set ys. count_list ys z \<le> count_list ys y)"
proof -
  let ?cs = "map (count_list ys) ys"
  let ?top = "fold max ?cs 0"
  have top: "?top = Max (set (0 # ?cs))" by (rule fold_max_Max)
  have ge: "\<And>z. z \<in> set ys \<Longrightarrow> count_list ys z \<le> ?top"
    unfolding top by (rule Max_ge) auto
  have "?top \<in> set (0 # ?cs)" unfolding top by (rule Max_in) auto
  then have inn: "?top = 0 \<or> (\<exists>z\<in>set ys. ?top = count_list ys z)" by auto
  show ?thesis
  proof
    assume "count_list ys y = ?top"
    with ge show "\<forall>z\<in>set ys. count_list ys z \<le> count_list ys y" by auto
  next
    assume a: "\<forall>z\<in>set ys. count_list ys z \<le> count_list ys y"
    from inn a have "?top \<le> count_list ys y" by auto
    with ge [OF assms] show "count_list ys y = ?top" by simp
  qed
qed

lemma set_most_frequent:
  "set (filter (\<lambda>y. count_list ys y = fold max (map (count_list ys) ys) 0) ys) = set (most_frequent ys)"
  by (auto simp: most_frequent_def list_all_iff top_count_iff)

lemma sort_hd_Min:
  fixes xs :: "int list"
  assumes "sort xs = m # ms"
  shows "m = Min (set xs)"
proof -
  have s: "sorted (m # ms)" using assms sorted_sort [of xs] by simp
  have e: "set xs = set (m # ms)" using assms set_sort [of "\<lambda>x. x" xs] by simp
  have "Min (set (m # ms)) = m"
    by (rule Min_eqI) (use s in auto)
  with e show ?thesis by simp
qed

lemma mode_hd:
  assumes "mode xs = m # ms"
  shows "m = Num (Min (set (most_frequent (nums xs))))"
proof -
  let ?ys = "nums xs"
  let ?f = "filter (\<lambda>y. count_list ?ys y = fold max (map (count_list ?ys) ?ys) 0) ?ys"
  from assms obtain y ys' where y: "sort (remdups ?f) = y # ys'" and m: "m = Num y"
    by (auto simp: mode_def Let_def)
  from y have "y = Min (set (remdups ?f))" by (rule sort_hd_Min)
  then have "y = Min (set (most_frequent ?ys))" by (simp only: set_remdups set_most_frequent)
  with m show ?thesis by simp
qed

section \<open>Selecting rows\<close>

lemma wf_frame_getitem:
  "wf_frame f \<Longrightarrow> getitem f c = Some xs \<Longrightarrow> length xs = length (index f)"
  by (auto simp: wf_frame_def getitem_def list_all_iff dest!: map_of_SomeD)

lemma set_select: "set (select keep xs) \<subseteq> set xs"
  by (auto simp: select_def dest: set_zip_rightD)

lemma select_map: "select keep (map f xs) = map f (select keep xs)"
proof (induction keep arbitrary: xs)
  case Nil
  then show ?case by (simp add: select_def)
next
  case (Cons k ks)
  then show ?case by (cases xs) (auto simp: select_def)
qed

lemma length_select:
  "length xs = length ys \<Longrightarrow> length (select keep xs) = length (select keep ys)"
proof (induction keep arbitrary: xs ys)
  case Nil
  then show ?case by (simp add: select_def)
next
  case (Cons k ks)
  from Cons.prems Cons.IH show ?case
    by (cases xs; cases ys) (auto simp: select_def)
qed

lemma select_notnull: "x \<in> set (select (notnull t) t) \<Longrightarrow> x \<noteq> NA"
  by (auto simp: select_def notnull_def zip_map1 zip_same_conv_map)

lemma mode_Num: "m \<in> set (mode xs) \<Longrightarrow> \<exists>y. m = Num y"
  by (auto simp: mode_def Let_def)

lemma fillna_dt_year_Num:
  "x \<in> set (fillna (dt_year ds) (Num y)) \<Longrightarrow> \<exists>n. x = Num n"
  by (auto simp: fillna_def dt_year_def split: cell.splits)

lemma word_count_Num: "\<exists>k. word_count u a = Num k \<and> 0 \<le> k"
  by (simp add: word_count_def)

lemma cell_at_Some:
  "getitem f c = Some xs \<Longrightarrow> i < length xs \<Longrightarrow> cell_at f c i = Some (xs ! i)"
  by (simp add: cell_at_def)

section \<open>What cleaning returns\<close>

text \<open>
  When \<open>clean_data\<close> returns, the raw frame had the four columns it reads, some date
  could be read, and the returned frame is a new object whose columns are the selected
  rows of the raw and the derived columns.
\<close>

lemma clean_data_cases:
  assumes "clean_data u conv self w = (w', Inr c)"
  obtains r pt ab j t m ms where
    "df self = Some r"
    "getitem (objs w r) ''publish_time'' = Some pt"
    "getitem (objs w r) ''abstract'' = Some ab"
    "getitem (objs w r) ''journal'' = Some j"
    "getitem (objs w r) ''title'' = Some t"
    "mode (dt_year (to_datetime conv pt)) = m # ms"
    "c = Suc (next_ref w)"
    "next_ref w' = Suc (Suc (next_ref w))"
    "index (objs w' c) = select (notnull t) (index (objs w r))"
    "getitem (objs w' c) ''title'' = Some (select (notnull t) t)"
    "getitem (objs w' c) ''abstract'' = Some (select (notnull t) ab)"
    "getitem (objs w' c) ''publish_time'' = Some (select (notnull t) (to_datetime conv pt))"
    "getitem (objs w' c) ''publication_year'' =
       Some (select (notnull t) (fillna (dt_year (to_datetime conv pt)) m))"
    "getitem (objs w' c) ''abstract_word_count'' = Some (select (notnull t) (map (word_count u) ab))"
    "getitem (objs w' c) ''journal_clean'' = Some (select (notnull t) (str_strip u (str_lower u j)))"
  using assms
  unfolding clean_data_def action_defs
  by (auto simp: getitem_setitem getitem_boolean_index index_setitem index_boolean_index
      split: option.splits list.splits)

text \<open>The converse: when the columns are there and some date can be read, cleaning returns.\<close>

lemma clean_data_returns:
  assumes "df self = Some r"
    and "getitem (objs w r) ''publish_time'' = Some pt"
    and "getitem (objs w r) ''abstract'' = Some ab"
    and "getitem (objs w r) ''journal'' = Some j"
    and "getitem (objs w r) ''title'' = Some t"
    and "mode (dt_year (to_datetime conv pt)) \<noteq> []"
  shows "snd (clean_data u conv self w) = Inr (Suc (next_ref w))"
  using assms
  unfolding clean_data_def action_defs
  by (auto simp: getitem_setitem split: option.splits list.splits)

lemma mode_empty_iff: "mode xs = [] \<longleftrightarrow> nums xs = []"
proof
  assume "nums xs = []"
  then show "mode xs = []" by (simp add: mode_def)
next
  assume e: "mode xs = []"
  show "nums xs = []"
  proof (rule ccontr)
    assume "nums xs \<noteq> []"
    then obtain y where y: "y \<in> set (nums xs)" by (cases "nums xs") auto
    let ?ys = "nums xs"
    let ?cs = "map (count_list ?ys) ?ys"
    have "fold max ?cs 0 \<in> set (0 # ?cs)"
      unfolding fold_max_Max by (rule Max_in) auto
    moreover have "count_list ?ys y \<le> fold max ?cs 0"
      unfolding fold_max_Max by (rule Max_ge) (use y in auto)
    moreover have "0 < count_list ?ys y" using y count_list_0_iff [of ?ys y] by auto
    ultimately obtain z where "z \<in> set ?ys" "count_list ?ys z = fold max ?cs 0" by auto
    then have "z \<in> set (filter (\<lambda>y. count_list ?ys y = fold max ?cs 0) ?ys)" by simp
    then have "Num z \<in> set (mode xs)" by (simp add: mode_def Let_def)
    then have "mode xs \<noteq> []" by auto
    with e show False by simp
  qed
qed

lemma clean_data_no_year:
  assumes "df self = Some r"
    and "getitem (objs w r) ''publish_time'' = Some pt"
    and "\<forall>x\<in>set pt. x = NA \<or> conv x = None"
  shows "snd (clean_data u conv self w) = Inl KeyError"
proof -
  have "dt_year (to_datetime conv pt) = map (\<lambda>x. NA) pt"
    using assms(3) by (auto simp: dt_year_def to_datetime_def split: cell.splits option.splits)
  moreover have "nums (map (\<lambda>x. NA) pt) = []" by (induction pt) auto
  ultimately have "mode (dt_year (to_datetime conv pt)) = []" by (simp add: mode_empty_iff)
  with assms(1,2) show ?thesis
    unfolding clean_data_def action_defs
    by (auto simp: getitem_setitem split: option.splits list.splits)
qed

section \<open>The example run\<close>

lemmas eval_defs = clean_data_def action_defs getitem_def setitem_def
  to_datetime_def dt_year_def mode_def fillna_def notnull_def boolean_index_def select_def
  str_lower_def str_strip_def word_count_def split_def lower_def lower_ascii_def strip_def ascii_def
  is_upper_def is_space_def

lemma iso_date_good: "iso_date (ascii ''2021-03-01'') = Some \<lparr>ts_year = 2021, ts_month = 3, ts_day = 1\<rparr>"
  by (simp add: ascii_def iso_date_def digit_val_def is_digit_def days_in_month_def)

lemma iso_date_good2: "iso_date (ascii ''2020-07-15'') = Some \<lparr>ts_year = 2020, ts_month = 7, ts_day = 15\<rparr>"
  by (simp add: ascii_def iso_date_def digit_val_def is_digit_def days_in_month_def)

lemma iso_date_bad: "iso_date (ascii ''bad-date'') = None" "iso_date (ascii ''unknown'') = None"
  by (simp_all add: ascii_def iso_date_def)

lemma clean_example_run:
  assumes "conv (Str (ascii ''2021-03-01'')) = Some t" and "ts_year t = 2021"
    and "conv (Str (ascii ''bad-date'')) = None"
    and "df self = Some r" and "objs w r = example_raw"
  shows "snd (clean_data u conv self w) = Inr (Suc (next_ref w))"
    and "objs (fst (clean_data u conv self w)) (Suc (next_ref w)) = example_clean t"
  using assms by (simp_all add: eval_defs example_raw_def example_clean_def)

lemma example_world_run:
  "clean_data latin1 iso_conv analyzer_0 (store_with example_raw) = (example_world, Inr 2)"
  "objs example_world 2 = example_clean \<lparr>ts_year = 2021, ts_month = 3, ts_day = 1\<rparr>"
proof -
  have c: "iso_conv (Str (ascii ''2021-03-01'')) = Some \<lparr>ts_year = 2021, ts_month = 3, ts_day = 1\<rparr>"
    "iso_conv (Str (ascii ''bad-date'')) = None"
    by (simp_all add: iso_conv_def iso_date_good iso_date_bad)
  have d: "df analyzer_0 = Some 0" "objs (store_with example_raw) 0 = example_raw"
    "Suc (next_ref (store_with example_raw)) = 2"
    by (simp_all add: analyzer_0_def store_with_def)
  have y: "ts_year \<lparr>ts_year = 2021, ts_month = 3, ts_day = 1\<rparr> = 2021" by simp
  show "clean_data latin1 iso_conv analyzer_0 (store_with example_raw) = (example_world, Inr 2)"
    using clean_example_run(1) [OF c(1) y c(2) d(1) d(2)] d(3)
    by (simp add: example_world_def prod_eq_iff)
  show "objs example_world 2 = example_clean \<lparr>ts_year = 2021, ts_month = 3, ts_day = 1\<rparr>"
    using clean_example_run(2) [OF c(1) y c(2) d(1) d(2)] d(3)
    by (simp add: example_world_def)
qed

lemma wf_example_raw: "wf_frame (objs (store_with example_raw) 0)"
  by (simp add: wf_frame_def store_with_def example_raw_def)

lemma tied_world_run:
  "clean_data latin1 iso_conv analyzer_0 (store_with tied_raw) = (tied_world, Inr 2)"
  "getitem (objs tied_world 2) ''publish_time'' =
     Some [Time \<lparr>ts_year = 2021, ts_month = 3, ts_day = 1\<rparr>,
           Time \<lparr>ts_year = 2020, ts_month = 7, ts_day = 15\<rparr>, NA]"
  "getitem (objs tied_world 2) ''publication_year'' = Some [Num 2021, Num 2020, Num 2020]"
  "index (objs tied_world 2) = [0, 1, 2]"
proof -
  have c: "iso_conv (Str (ascii ''2021-03-01'')) = Some \<lparr>ts_year = 2021, ts_month = 3, ts_day = 1\<rparr>"
    "iso_conv (Str (ascii ''2020-07-15'')) = Some \<lparr>ts_year = 2020, ts_month = 7, ts_day = 15\<rparr>"
    "iso_conv (Str (ascii ''unknown'')) = None"
    by (simp_all add: iso_conv_def iso_date_good iso_date_good2 iso_date_bad)
  have r: "snd (clean_data latin1 iso_conv analyzer_0 (store_with tied_raw)) = Inr 2"
    using c by (simp add: eval_defs tied_raw_def analyzer_0_def store_with_def)
  then show "clean_data latin1 iso_conv analyzer_0 (store_with tied_raw) = (tied_world, Inr 2)"
    by (simp add: tied_world_def prod_eq_iff)
  show "getitem (objs tied_world 2) ''publish_time'' =
     Some [Time \<lparr>ts_year = 2021, ts_month = 3, ts_day = 1\<rparr>,
           Time \<lparr>ts_year = 2020, ts_month = 7, ts_day = 15\<rparr>, NA]"
    using c by (simp add: tied_world_def eval_defs tied_raw_def analyzer_0_def store_with_def)
  show "getitem (objs tied_world 2) ''publication_year'' = Some [Num 2021, Num 2020, Num 2020]"
    using c by (simp add: tied_world_def eval_defs tied_raw_def analyzer_0_def store_with_def)
  show "index (objs tied_world 2) = [0, 1, 2]"
    using c by (simp add: tied_world_def eval_defs tied_raw_def analyzer_0_def store_with_def)
qed

lemma fillna_dt_year_map:
  "fillna (dt_year ds) m = map (\<lambda>d. case d of Time t \<Rightarrow> Num (ts_year t) | _ \<Rightarrow> m) ds"
  by (auto simp: fillna_def dt_year_def split: cell.splits)

lemma wf_tied_raw: "wf_frame (objs (store_with tied_raw) 0)"
  by (simp add: wf_frame_def store_with_def tied_raw_def)

section \<open>Properties of cleaning\<close>

text \<open>
  Claim C1: in every row of the table that \<open>clean_data\<close> returns, the title is not
  null, the publication year is a number (an integer, not null) and the abstract word
  count is a number that is at least 0. The raw table is any well-formed frame.
\<close>

theorem clean_data_invariant:
  assumes run: "clean_data u conv self w = (w', Inr c)"
    and raw: "df self = Some r" "wf_frame (objs w r)"
    and i: "i < nrows (objs w' c)"
  shows "(\<exists>x. cell_at (objs w' c) ''title'' i = Some x \<and> x \<noteq> NA) \<and>
         (\<exists>y. cell_at (objs w' c) ''publication_year'' i = Some (Num y)) \<and>
         (\<exists>k. cell_at (objs w' c) ''abstract_word_count'' i = Some (Num k) \<and> 0 \<le> k)"
proof -
  from run obtain r' pt ab j t m ms where
    r': "df self = Some r'"
    and pt: "getitem (objs w r') ''publish_time'' = Some pt"
    and ab: "getitem (objs w r') ''abstract'' = Some ab"
    and t: "getitem (objs w r') ''title'' = Some t"
    and m: "mode (dt_year (to_datetime conv pt)) = m # ms"
    and idx: "index (objs w' c) = select (notnull t) (index (objs w r'))"
    and ct: "getitem (objs w' c) ''title'' = Some (select (notnull t) t)"
    and cy: "getitem (objs w' c) ''publication_year'' =
       Some (select (notnull t) (fillna (dt_year (to_datetime conv pt)) m))"
    and cw: "getitem (objs w' c) ''abstract_word_count'' =
       Some (select (notnull t) (map (word_count u) ab))"
    by (rule clean_data_cases)
  from r' raw have [simp]: "r' = r" by simp
  let ?keep = "notnull t"
  let ?n = "length (index (objs w r))"
  have len: "length t = ?n" "length pt = ?n" "length ab = ?n"
    using raw(2) t pt ab by (auto dest: wf_frame_getitem)
  have n: "nrows (objs w' c) = length (select ?keep t)"
    using idx len(1) length_select [of t "index (objs w r)" ?keep] by (simp add: nrows_def)
  have it: "i < length (select ?keep t)" using i n by simp
  have "m \<in> set (mode (dt_year (to_datetime conv pt)))" using m by simp
  then obtain y where y: "m = Num y" using mode_Num by blast
  let ?years = "fillna (dt_year (to_datetime conv pt)) m"
  have "length ?years = length t"
    using len by (simp add: fillna_def dt_year_def to_datetime_def)
  then have iy: "i < length (select ?keep ?years)"
    using it length_select [of ?years t ?keep] by simp
  have "length (map (word_count u) ab) = length t" using len by simp
  then have iw: "i < length (select ?keep (map (word_count u) ab))"
    using it length_select [of "map (word_count u) ab" t ?keep] by simp
  have "select ?keep t ! i \<noteq> NA"
    using it select_notnull [of "select ?keep t ! i" t] by simp
  then have 1: "\<exists>x. cell_at (objs w' c) ''title'' i = Some x \<and> x \<noteq> NA"
    using ct it by (simp add: cell_at_Some)
  have "select ?keep ?years ! i \<in> set ?years"
    using iy set_select [of ?keep ?years] nth_mem by blast
  then obtain n where "select ?keep ?years ! i = Num n"
    using fillna_dt_year_Num y by blast
  then have 2: "\<exists>y. cell_at (objs w' c) ''publication_year'' i = Some (Num y)"
    using cy iy by (simp add: cell_at_Some)
  have "select ?keep (map (word_count u) ab) ! i \<in> set (map (word_count u) ab)"
    using iw set_select [of ?keep "map (word_count u) ab"] nth_mem by blast
  then obtain a where "select ?keep (map (word_count u) ab) ! i = word_count u a" by auto
  then obtain k where "select ?keep (map (word_count u) ab) ! i = Num k" "0 \<le> k"
    using word_count_Num [of u a] by auto
  then have 3: "\<exists>k. cell_at (objs w' c) ''abstract_word_count'' i = Some (Num k) \<and> 0 \<le> k"
    using cw iw by (simp add: cell_at_Some)
  from 1 2 3 show ?thesis by blast
qed

text \<open>
  The hypotheses of C1 hold on the example table, row 0 of its cleaned table.
\<close>

theorem clean_data_invariant_witness:
  "clean_data latin1 iso_conv analyzer_0 (store_with example_raw) = (example_world, Inr 2) \<and>
   df analyzer_0 = Some 0 \<and> wf_frame (objs (store_with example_raw) 0) \<and>
   0 < nrows (objs example_world 2) \<and>
   (\<exists>x. cell_at (objs example_world 2) ''title'' 0 = Some x \<and> x \<noteq> NA) \<and>
   (\<exists>y. cell_at (objs example_world 2) ''publication_year'' 0 = Some (Num y)) \<and>
   (\<exists>k. cell_at (objs example_world 2) ''abstract_word_count'' 0 = Some (Num k) \<and> 0 \<le> k)"
proof -
  have h2: "df analyzer_0 = Some 0" by (simp add: analyzer_0_def)
  have h4: "0 < nrows (objs example_world 2)"
    by (simp add: example_world_run(2) nrows_def example_clean_def)
  from clean_data_invariant [OF example_world_run(1) h2 wf_example_raw h4]
    example_world_run(1) h2 wf_example_raw h4
  show ?thesis by blast
qed

text \<open>
  Claim C2: on the two-row example, with a date reader that reads \<open>2021-03-01\<close> as a
  date of the year 2021 and cannot read \<open>bad-date\<close>, \<open>clean_data\<close> returns a new table of
  exactly one row (the row labelled 0), whose abstract word count is 3, whose
  normalized journal is \<open>nejm\<close> and whose publication year is 2021.
\<close>

theorem clean_data_example:
  assumes "conv (Str (ascii ''2021-03-01'')) = Some t" and "ts_year t = 2021"
    and "conv (Str (ascii ''bad-date'')) = None"
    and "df self = Some r" and "objs w r = example_raw"
  shows "snd (clean_data u conv self w) = Inr (Suc (next_ref w)) \<and>
         objs (fst (clean_data u conv self w)) (Suc (next_ref w)) =
           \<lparr>index = [0],
            columns =
              [(''title'', [Str (ascii ''A'')]),
               (''abstract'', [Str (ascii ''one two three'')]),
               (''journal'', [Str (ascii '' NEJM '')]),
               (''publish_time'', [Time t]),
               (''publication_year'', [Num 2021]),
               (''abstract_word_count'', [Num 3]),
               (''journal_clean'', [Str (ascii ''nejm'')])]\<rparr>"
  using clean_example_run [OF assms] by (simp add: example_clean_def)

text \<open>
  The ISO date reader meets the hypotheses of C2, and the result has one row with the
  three values.
\<close>

theorem clean_data_example_witness:
  "iso_conv (Str (ascii ''2021-03-01'')) = Some \<lparr>ts_year = 2021, ts_month = 3, ts_day = 1\<rparr> \<and>
   iso_conv (Str (ascii ''bad-date'')) = None \<and>
   df analyzer_0 = Some 0 \<and> objs (store_with example_raw) 0 = example_raw \<and>
   snd (clean_data latin1 iso_conv analyzer_0 (store_with example_raw)) = Inr 2 \<and>
   nrows (objs (fst (clean_data latin1 iso_conv analyzer_0 (store_with example_raw))) 2) = 1 \<and>
   cell_at (objs (fst (clean_data latin1 iso_conv analyzer_0 (store_with example_raw))) 2)
     ''abstract_word_count'' 0 = Some (Num 3) \<and>
   cell_at (objs (fst (clean_data latin1 iso_conv analyzer_0 (store_with example_raw))) 2)
     ''journal_clean'' 0 = Some (Str (ascii ''nejm'')) \<and>
   cell_at (objs (fst (clean_data latin1 iso_conv analyzer_0 (store_with example_raw))) 2)
     ''publication_year'' 0 = Some (Num 2021)"
proof -
  have c: "iso_conv (Str (ascii ''2021-03-01'')) = Some \<lparr>ts_year = 2021, ts_month = 3, ts_day = 1\<rparr>"
    "iso_conv (Str (ascii ''bad-date'')) = None"
    by (simp_all add: iso_conv_def iso_date_good iso_date_bad)
  have y: "ts_year \<lparr>ts_year = 2021, ts_month = 3, ts_day = 1\<rparr> = 2021" by simp
  have d: "df analyzer_0 = Some 0" "objs (store_with example_raw) 0 = example_raw"
    by (simp_all add: analyzer_0_def store_with_def)
  have n: "Suc (next_ref (store_with example_raw)) = 2" by (simp add: store_with_def)
  from clean_data_example [OF c(1) y c(2) d] c d n show ?thesis
    by (simp add: nrows_def cell_at_def getitem_def)
qed

text \<open>
  Claim C3 says that dates which cannot be read never make \<open>clean_data\<close> fail. On a table
  whose dates are all unreadable or missing the mode is empty, and taking its first
  entry raises \<open>KeyError\<close>: the call fails on the two-row table below, whatever the
  Unicode tables are.
\<close>

theorem clean_data_undated_raises:
  "\<forall>u. snd (clean_data u iso_conv analyzer_0 (store_with undated_raw)) = Inl KeyError"
proof (rule allI, rule clean_data_no_year)
  show "df analyzer_0 = Some 0" by (simp add: analyzer_0_def)
  show "getitem (objs (store_with undated_raw) 0) ''publish_time'' = Some [Str (ascii ''bad-date''), NA]"
    by (simp add: store_with_def undated_raw_def getitem_def)
  show "\<forall>x\<in>set [Str (ascii ''bad-date''), NA]. x = NA \<or> iso_conv x = None"
    by (simp add: iso_conv_def iso_date_bad)
qed

text \<open>
  Claim C8: in every row of the cleaned table, the abstract word count is 0 when the
  abstract is null and otherwise the number of whitespace-separated tokens of the
  abstract's text. Whitespace is what \<open>str.split\<close> takes for it: the ASCII whitespace
  and the code points beyond ASCII that the Unicode tables \<open>u\<close> class as whitespace,
  whatever these tables are.
\<close>

theorem clean_data_word_count:
  assumes run: "clean_data u conv self w = (w', Inr c)"
    and raw: "df self = Some r" "wf_frame (objs w r)"
    and i: "i < nrows (objs w' c)"
  shows "\<exists>a. cell_at (objs w' c) ''abstract'' i = Some a \<and>
             cell_at (objs w' c) ''abstract_word_count'' i =
               Some (Num (if a = NA then 0 else int (whitespace_token_count u (py_str a))))"
proof -
  from run obtain r' ab t where
    r': "df self = Some r'"
    and ab: "getitem (objs w r') ''abstract'' = Some ab"
    and t: "getitem (objs w r') ''title'' = Some t"
    and idx: "index (objs w' c) = select (notnull t) (index (objs w r'))"
    and ca: "getitem (objs w' c) ''abstract'' = Some (select (notnull t) ab)"
    and cw: "getitem (objs w' c) ''abstract_word_count'' =
       Some (select (notnull t) (map (word_count u) ab))"
    by (rule clean_data_cases)
  from r' raw have [simp]: "r' = r" by simp
  let ?keep = "notnull t"
  have len: "length t = length (index (objs w r))" "length ab = length (index (objs w r))"
    using raw(2) t ab by (auto dest: wf_frame_getitem)
  have "nrows (objs w' c) = length (select ?keep ab)"
    using idx len length_select [of ab "index (objs w r)" ?keep] by (simp add: nrows_def)
  with i have ia: "i < length (select ?keep ab)" by simp
  let ?a = "select ?keep ab ! i"
  have 1: "cell_at (objs w' c) ''abstract'' i = Some ?a"
    using ca ia by (simp add: cell_at_Some)
  have "cell_at (objs w' c) ''abstract_word_count'' i = Some (word_count u ?a)"
    using cw ia by (simp add: cell_at_def select_map)
  then have 2: "cell_at (objs w' c) ''abstract_word_count'' i =
      Some (Num (if ?a = NA then 0 else int (whitespace_token_count u (py_str ?a))))"
    by (simp add: word_count_def length_split)
  from 1 2 show ?thesis by blast
qed

lemma nbsp_world_run:
  "clean_data latin1 iso_conv analyzer_0 (store_with nbsp_raw) = (nbsp_world, Inr 2)"
  "index (objs nbsp_world 2) = [0]"
  "getitem (objs nbsp_world 2) ''abstract'' = Some [Str nbsp_abstract]"
  "getitem (objs nbsp_world 2) ''abstract_word_count'' = Some [Num 3]"
proof -
  have c: "iso_conv (Str (ascii ''2021-03-01'')) = Some \<lparr>ts_year = 2021, ts_month = 3, ts_day = 1\<rparr>"
    by (simp add: iso_conv_def iso_date_good)
  have "snd (clean_data latin1 iso_conv analyzer_0 (store_with nbsp_raw)) = Inr 2"
    using c by (simp add: eval_defs nbsp_raw_def analyzer_0_def store_with_def)
  then show "clean_data latin1 iso_conv analyzer_0 (store_with nbsp_raw) = (nbsp_world, Inr 2)"
    by (simp add: nbsp_world_def prod_eq_iff)
  show "index (objs nbsp_world 2) = [0]"
    using c by (simp add: nbsp_world_def eval_defs nbsp_raw_def analyzer_0_def store_with_def)
  show "getitem (objs nbsp_world 2) ''abstract'' = Some [Str nbsp_abstract]"
    using c by (simp add: nbsp_world_def eval_defs nbsp_raw_def analyzer_0_def store_with_def)
  show "getitem (objs nbsp_world 2) ''abstract_word_count'' = Some [Num 3]"
    using c
    by (simp add: nbsp_world_def eval_defs nbsp_raw_def analyzer_0_def store_with_def
        nbsp_abstract_def latin1_def)
qed

text \<open>
  The hypotheses of C8 hold on the example table and on a table whose abstract has a
  no-break space (code point 160) between its first two words: that abstract has three
  words, for \<open>split\<close> and for the count of token starts alike.
\<close>

theorem clean_data_word_count_witness:
  "clean_data latin1 iso_conv analyzer_0 (store_with example_raw) = (example_world, Inr 2) \<and>
   df analyzer_0 = Some 0 \<and> wf_frame (objs (store_with example_raw) 0) \<and>
   0 < nrows (objs example_world 2) \<and>
   (\<exists>a. cell_at (objs example_world 2) ''abstract'' 0 = Some a \<and>
        cell_at (objs example_world 2) ''abstract_word_count'' 0 =
          Some (Num (if a = NA then 0 else int (whitespace_token_count latin1 (py_str a))))) \<and>
   clean_data latin1 iso_conv analyzer_0 (store_with nbsp_raw) = (nbsp_world, Inr 2) \<and>
   wf_frame (objs (store_with nbsp_raw) 0) \<and> 0 < nrows (objs nbsp_world 2) \<and>
   cell_at (objs nbsp_world 2) ''abstract'' 0 = Some (Str nbsp_abstract) \<and>
   cell_at (objs nbsp_world 2) ''abstract_word_count'' 0 = Some (Num 3) \<and>
   whitespace_token_count latin1 nbsp_abstract = 3"
proof -
  have h2: "df analyzer_0 = Some 0" by (simp add: analyzer_0_def)
  have h4: "0 < nrows (objs example_world 2)"
    by (simp add: example_world_run(2) nrows_def example_clean_def)
  have w: "wf_frame (objs (store_with nbsp_raw) 0)"
    by (simp add: wf_frame_def store_with_def nbsp_raw_def)
  have n: "0 < nrows (objs nbsp_world 2)" by (simp add: nrows_def nbsp_world_run(2))
  have a: "cell_at (objs nbsp_world 2) ''abstract'' 0 = Some (Str nbsp_abstract)"
    by (simp add: cell_at_def nbsp_world_run(3))
  have k: "cell_at (objs nbsp_world 2) ''abstract_word_count'' 0 = Some (Num 3)"
    by (simp add: cell_at_def nbsp_world_run(4))
  from clean_data_word_count [OF nbsp_world_run(1) h2 w n] a k
  have t: "whitespace_token_count latin1 nbsp_abstract = 3" by simp
  from clean_data_word_count [OF example_world_run(1) h2 wf_example_raw h4]
    example_world_run(1) h2 wf_example_raw h4 nbsp_world_run(1) w n a k t
  show ?thesis by blast
qed

text \<open>
  Claim C9: \<open>clean_data\<close> leaves the raw table as it was, whether it returns or raises:
  the object that \<open>self.df\<close> refers to is the same frame afterwards.
\<close>

theorem clean_data_keeps_raw:
  assumes "df self = Some r" and "r < next_ref w"
  shows "objs (fst (clean_data u conv self w)) r = objs w r"
  using assms(2) by (rule clean_data_frame)

text \<open>
  On the example store the raw table is allocated, and it is unchanged after cleaning.
\<close>

theorem clean_data_keeps_raw_witness:
  "df analyzer_0 = Some 0 \<and> 0 < next_ref (store_with example_raw) \<and>
   objs (fst (clean_data latin1 iso_conv analyzer_0 (store_with example_raw))) 0 = example_raw"
proof -
  have h1: "df analyzer_0 = Some 0" by (simp add: analyzer_0_def)
  have h2: "0 < next_ref (store_with example_raw)" by (simp add: store_with_def)
  have "objs (store_with example_raw) 0 = example_raw" by (simp add: store_with_def)
  with clean_data_keeps_raw [OF h1 h2, where u = latin1 and conv = iso_conv] h1 h2 show ?thesis by simp
qed

text \<open>
  Claim C10: the year that \<open>clean_data\<close> puts in the rows without a date is the
  smallest of the years that are most frequent among the years read from the raw
  dates. It depends on the counts alone, not on the order of the rows.
\<close>

theorem clean_data_imputes_smallest_mode:
  assumes run: "clean_data u conv self w = (w', Inr c)"
    and raw: "df self = Some r" "wf_frame (objs w r)"
      "getitem (objs w r) ''publish_time'' = Some pt"
    and i: "i < nrows (objs w' c)"
    and null: "cell_at (objs w' c) ''publish_time'' i = Some NA"
  shows "cell_at (objs w' c) ''publication_year'' i =
           Some (Num (Min (set (most_frequent (parsed_years conv pt)))))"
proof -
  from run obtain r' pt' t m ms where
    r': "df self = Some r'"
    and pt': "getitem (objs w r') ''publish_time'' = Some pt'"
    and t: "getitem (objs w r') ''title'' = Some t"
    and m: "mode (dt_year (to_datetime conv pt')) = m # ms"
    and cd: "getitem (objs w' c) ''publish_time'' = Some (select (notnull t) (to_datetime conv pt'))"
    and cy: "getitem (objs w' c) ''publication_year'' =
       Some (select (notnull t) (fillna (dt_year (to_datetime conv pt')) m))"
    by (rule clean_data_cases)
  from r' raw pt' have [simp]: "r' = r" "pt' = pt" by simp_all
  let ?dates = "select (notnull t) (to_datetime conv pt)"
  let ?g = "\<lambda>d. case d of Time t \<Rightarrow> Num (ts_year t) | _ \<Rightarrow> m"
  from null cd have id: "i < length ?dates" and d: "?dates ! i = NA"
    by (auto simp: cell_at_def split: if_splits)
  have years: "select (notnull t) (fillna (dt_year (to_datetime conv pt)) m) = map ?g ?dates"
    by (simp add: fillna_dt_year_map select_map)
  have "cell_at (objs w' c) ''publication_year'' i = Some (?g (?dates ! i))"
    using cy id by (simp add: cell_at_def years)
  also have "?g (?dates ! i) = m" by (simp add: d)
  also have "m = Num (Min (set (most_frequent (parsed_years conv pt))))"
    using mode_hd [of "dt_year (to_datetime conv pt)" m ms] m by (simp add: parsed_years_def)
  finally show ?thesis .
qed

text \<open>
  On a table whose years 2021 and 2020 are tied, with 2021 first, the row without a date
  gets 2020.
\<close>

theorem clean_data_imputes_smallest_mode_witness:
  "clean_data latin1 iso_conv analyzer_0 (store_with tied_raw) = (tied_world, Inr 2) \<and>
   df analyzer_0 = Some 0 \<and> wf_frame (objs (store_with tied_raw) 0) \<and>
   getitem (objs (store_with tied_raw) 0) ''publish_time'' =
     Some [Str (ascii ''2021-03-01''), Str (ascii ''2020-07-15''), Str (ascii ''unknown'')] \<and>
   2 < nrows (objs tied_world 2) \<and>
   cell_at (objs tied_world 2) ''publish_time'' 2 = Some NA \<and>
   parsed_years iso_conv [Str (ascii ''2021-03-01''), Str (ascii ''2020-07-15''), Str (ascii ''unknown'')] = [2021, 2020] \<and>
   most_frequent [2021, 2020] = [2021, 2020] \<and>
   cell_at (objs tied_world 2) ''publication_year'' 2 = Some (Num 2020)"
proof -
  have h2: "df analyzer_0 = Some 0" by (simp add: analyzer_0_def)
  have h3: "getitem (objs (store_with tied_raw) 0) ''publish_time'' =
     Some [Str (ascii ''2021-03-01''), Str (ascii ''2020-07-15''), Str (ascii ''unknown'')]"
    by (simp add: store_with_def tied_raw_def getitem_def)
  have h4: "2 < nrows (objs tied_world 2)" by (simp add: nrows_def tied_world_run(4))
  have h5: "cell_at (objs tied_world 2) ''publish_time'' 2 = Some NA"
    by (simp add: cell_at_def tied_world_run(2))
  have p: "parsed_years iso_conv [Str (ascii ''2021-03-01''), Str (ascii ''2020-07-15''), Str (ascii ''unknown'')] = [2021, 2020]"
    by (simp add: parsed_years_def to_datetime_def dt_year_def iso_conv_def
        iso_date_good iso_date_good2 iso_date_bad)
  have q: "most_frequent [2021, 2020] = [2021, 2020]" by (simp add: most_frequent_def)
  from clean_data_imputes_smallest_mode [OF tied_world_run(1) h2 wf_tied_raw h3 h4 h5]
  have "cell_at (objs tied_world 2) ''publication_year'' 2 = Some (Num 2020)"
    by (simp add: p q)
  with tied_world_run(1) h2 wf_tied_raw h3 h4 h5 p q show ?thesis by blast
qed

section \<open>Properties of loading\<close>

lemma load_data_not_found:
  "fs (file_path self) = Fails FileNotFoundError \<Longrightarrow>
   load_data csv fs self w = (w, Inr (self, None))"
  by (simp add: load_data_def read_csv_def)

lemma load_data_other_error:
  "fs (file_path self) = Fails e \<Longrightarrow> e \<noteq> FileNotFoundError \<Longrightarrow>
   load_data csv fs self w = (w, Inl e)"
  by (simp add: load_data_def read_csv_def)

text \<open>
  Claim C4 says that \<open>load_data\<close> fails with an error when the path does not exist.
  It does not: when no file has the name, \<open>load_data\<close> returns \<open>None\<close> to its caller,
  and the constructor returns an analyzer whose \<open>df\<close> is \<open>None\<close>.
\<close>

theorem load_data_missing_file_returns:
  "no_files (file_path fresh_analyzer) = Fails FileNotFoundError \<and>
   load_data no_csv no_files fresh_analyzer empty_store = (empty_store, Inr (fresh_analyzer, None)) \<and>
   init no_csv no_files ''data/metadata.csv'' empty_store = (empty_store, Inr fresh_analyzer) \<and>
   df fresh_analyzer = None"
  by (simp add: load_data_def read_csv_def init_def no_files_def fresh_analyzer_def)

text \<open>
  Claim C4 as amended: when opening the path fails because no file has that name
  (\<open>FileNotFoundError\<close>), \<open>load_data\<close> handles the error itself and returns \<open>None\<close>,
  with the store and the analyzer unchanged, so no raw table is produced and no error
  reaches the caller. When opening the path fails with any other error (the file may
  not be read, a part of the path is not a directory, and so on), that error reaches
  the caller and no raw table is produced.
\<close>

theorem load_data_missing_or_unreadable:
  "(fs (file_path self) = Fails FileNotFoundError \<longrightarrow>
      load_data csv fs self w = (w, Inr (self, None))) \<and>
   (fs (file_path self) = Fails e \<and> e \<noteq> FileNotFoundError \<longrightarrow>
      load_data csv fs self w = (w, Inl e))"
  by (simp add: load_data_not_found load_data_other_error)

text \<open>
  The cases of C4 occur: a file system without files, one whose files may not be read,
  and one in which the path leads through a regular file.
\<close>

theorem load_data_missing_or_unreadable_witness:
  "no_files (file_path fresh_analyzer) = Fails FileNotFoundError \<and>
   load_data no_csv no_files fresh_analyzer empty_store = (empty_store, Inr (fresh_analyzer, None)) \<and>
   locked_files (file_path fresh_analyzer) = Fails PermissionError \<and>
   PermissionError \<noteq> FileNotFoundError \<and>
   load_data no_csv locked_files fresh_analyzer empty_store = (empty_store, Inl PermissionError) \<and>
   blocked_files (file_path fresh_analyzer) = Fails NotADirectoryError \<and>
   NotADirectoryError \<noteq> FileNotFoundError \<and>
   load_data no_csv blocked_files fresh_analyzer empty_store = (empty_store, Inl NotADirectoryError)"
proof -
  have a: "no_files (file_path fresh_analyzer) = Fails FileNotFoundError"
    by (simp add: no_files_def)
  have b: "locked_files (file_path fresh_analyzer) = Fails PermissionError"
    by (simp add: locked_files_def)
  have c: "blocked_files (file_path fresh_analyzer) = Fails NotADirectoryError"
    by (simp add: blocked_files_def)
  from load_data_missing_or_unreadable
      [where fs = no_files and self = fresh_analyzer and csv = no_csv and w = empty_store]
    load_data_missing_or_unreadable
      [where fs = locked_files and self = fresh_analyzer and csv = no_csv and w = empty_store
         and e = PermissionError]
    load_data_missing_or_unreadable
      [where fs = blocked_files and self = fresh_analyzer and csv = no_csv and w = empty_store
         and e = NotADirectoryError]
    a b c
  show ?thesis by simp
qed

section \<open>Properties of counting\<close>

lemma set_first_occ [simp]: "set (first_occ xs) = set xs"
  by (induction xs) auto

lemma distinct_first_occ [simp]: "distinct (first_occ xs)"
  by (induction xs) auto

lemma first_occ_snoc:
  "first_occ (xs @ [x]) = (if x \<in> set xs then first_occ xs else first_occ xs @ [x])"
  by (induction xs) auto

lemma map_default_present:
  "distinct ks \<Longrightarrow> x \<in> set ks \<Longrightarrow>
   AList.map_default x v Suc (map (\<lambda>k. (k, f k)) ks) =
     map (\<lambda>k. (k, if k = x then Suc (f k) else f k)) ks"
  by (induction ks) (auto simp: map_default.simps)

lemma map_default_absent:
  "x \<notin> set ks \<Longrightarrow>
   AList.map_default x (v::nat) g (map (\<lambda>k. (k, f k)) ks) = map (\<lambda>k. (k, f k)) ks @ [(x, v)]"
  by (induction ks) (auto simp: map_default.simps)

lemma counter_snoc: "counter (xs @ [x]) = AList.map_default x 1 Suc (counter xs)"
  by (simp add: counter_def)

lemma counter_tally: "counter xs = tally xs"
proof (induction xs rule: rev_induct)
  case Nil
  show ?case by (simp add: counter_def tally_def)
next
  case (snoc x xs)
  show ?case
  proof (cases "x \<in> set xs")
    case True
    have "counter (xs @ [x]) = AList.map_default x 1 Suc (map (\<lambda>k. (k, count_list xs k)) (first_occ xs))"
      using snoc.IH by (simp add: counter_snoc tally_def)
    also have "\<dots> = map (\<lambda>k. (k, if k = x then Suc (count_list xs k) else count_list xs k)) (first_occ xs)"
      using True by (simp add: map_default_present)
    also have "\<dots> = tally (xs @ [x])"
      using True by (auto simp: tally_def first_occ_snoc)
    finally show ?thesis .
  next
    case False
    have "counter (xs @ [x]) = AList.map_default x 1 Suc (map (\<lambda>k. (k, count_list xs k)) (first_occ xs))"
      using snoc.IH by (simp add: counter_snoc tally_def)
    also have "\<dots> = map (\<lambda>k. (k, count_list xs k)) (first_occ xs) @ [(x, 1)]"
      using False by (simp add: map_default_absent)
    also have "\<dots> = tally (xs @ [x])"
      using False by (auto simp: tally_def first_occ_snoc)
    finally show ?thesis .
  qed
qed

lemma map_fst_tally [simp]: "map fst (tally xs) = first_occ xs"
  by (simp add: tally_def comp_def)

lemma tally_count: "(k, c) \<in> set (tally xs) \<Longrightarrow> k \<in> set xs \<and> c = count_list xs k"
  by (auto simp: tally_def)

lemma set_by_count_desc [simp]: "set (by_count_desc kv) = set kv"
  by (simp add: by_count_desc_def)

lemma length_by_count_desc [simp]: "length (by_count_desc kv) = length kv"
  by (simp add: by_count_desc_def)

lemma distinct_map_fst_sort_key:
  "distinct (map fst (sort_key f kv)) = distinct (map fst kv)"
proof (induction kv)
  case Nil
  show ?case by simp
next
  case (Cons p kv)
  have "distinct (map fst (insort_key f p ys)) = (fst p \<notin> fst ` set ys \<and> distinct (map fst ys))" for ys
    by (induction ys) (auto simp: set_insort_key)
  with Cons show ?case by simp
qed

lemma count_desc_by_count_desc: "count_desc (by_count_desc kv)"
proof -
  have "sorted (map (\<lambda>(k, c). - int c) (by_count_desc kv))"
    unfolding by_count_desc_def by (rule sorted_sort_key)
  then show ?thesis
    by (auto simp: count_desc_def sorted_map case_prod_unfold elim: sorted_wrt_mono_rel [rotated])
qed

lemma by_count_desc_stable:
  "filter (\<lambda>p. snd p = c) (by_count_desc kv) = filter (\<lambda>p. snd p = c) kv"
proof -
  have "filter (\<lambda>p. (\<lambda>(k, c). - int c) p = - int c) (sort_key (\<lambda>(k, c). - int c) kv)
      = filter (\<lambda>p. (\<lambda>(k, c). - int c) p = - int c) kv"
    by (rule sort_key_stable)
  then show ?thesis by (simp add: by_count_desc_def case_prod_unfold)
qed

lemma count_desc_take: "count_desc kv \<Longrightarrow> count_desc (take n kv)"
  unfolding count_desc_def by (metis append_take_drop_id sorted_wrt_append)

section \<open>Top journals\<close>

lemma count_list_filter: "P k \<Longrightarrow> count_list (filter P xs) k = count_list xs k"
  by (induction xs) auto

lemma value_counts_tally: "value_counts xs = by_count_desc (tally (dropna xs))"
  by (simp add: value_counts_def counter_tally)

lemma value_counts_entry:
  "(k, c) \<in> set (value_counts xs) \<Longrightarrow> k \<noteq> NA \<and> k \<in> set xs \<and> c = count_list xs k"
  by (auto simp: value_counts_tally dropna_def count_list_filter dest!: tally_count)

lemma value_counts_complete:
  "k \<in> set xs \<Longrightarrow> k \<noteq> NA \<Longrightarrow> (k, count_list xs k) \<in> set (value_counts xs)"
  by (auto simp: value_counts_tally tally_def dropna_def count_list_filter image_iff)

lemma distinct_value_counts: "distinct (map fst (value_counts xs))"
  by (simp add: value_counts_tally by_count_desc_def distinct_map_fst_sort_key)

lemma count_desc_value_counts: "count_desc (value_counts xs)"
  by (simp add: value_counts_tally count_desc_by_count_desc)

lemma head_nat: "head (int n) xs = take n xs"
  by (simp add: head_def)

lemma select_map_filter: "select (map P xs) xs = filter P xs"
  by (induction xs) (auto simp: select_def)

lemma analyze_top_journals_props:
  assumes "getitem f ''journal_clean'' = Some journals"
  shows "\<exists>res. analyze_top_journals f (int n) = Inr res \<and> length res \<le> n \<and> count_desc res \<and>
           distinct (map fst res) \<and>
           (\<forall>(j, c)\<in>set res. j \<noteq> NA \<and> c = count_list journals j)"
proof -
  let ?res = "take n (value_counts journals)"
  have 1: "analyze_top_journals f (int n) = Inr ?res"
    using assms by (simp add: analyze_top_journals_def head_nat)
  have 2: "length ?res \<le> n" by simp
  have 3: "count_desc ?res" by (rule count_desc_take) (rule count_desc_value_counts)
  have 4: "distinct (map fst ?res)"
    using distinct_value_counts [of journals] by (simp add: take_map [symmetric] distinct_take)
  have 5: "\<forall>(j, c)\<in>set ?res. j \<noteq> NA \<and> c = count_list journals j"
    using value_counts_entry [of _ _ journals] by (auto dest!: in_set_takeD)
  from 1 2 3 4 5 show ?thesis by blast
qed

text \<open>
  Claim C6: for every cleaned table and every count \<open>n\<close>, \<open>analyze_top_journals\<close> returns
  at most \<open>n\<close> entries, with counts that never increase along the list, and each
  returned journal's count is the number of its occurrences in the column
  \<open>journal_clean\<close>. The journals returned are distinct and not null. (The count \<open>n\<close> is a
  natural number; with a negative \<open>top_n\<close> the library's \<open>head\<close> drops entries from the
  end instead.)
\<close>

theorem analyze_top_journals_correct:
  assumes "clean_data u conv self w = (w', Inr c)"
  shows "\<exists>journals res.
           getitem (objs w' c) ''journal_clean'' = Some journals \<and>
           analyze_top_journals (objs w' c) (int n) = Inr res \<and>
           length res \<le> n \<and> count_desc res \<and> distinct (map fst res) \<and>
           (\<forall>(j, k)\<in>set res. j \<noteq> NA \<and> k = count_list journals j)"
proof -
  from assms obtain journals where "getitem (objs w' c) ''journal_clean'' = Some journals"
    by (rule clean_data_cases)
  with analyze_top_journals_props [of "objs w' c" journals n] show ?thesis by blast
qed

lemma tied_journals:
  "getitem (objs tied_world 2) ''journal_clean'' = Some [Str (ascii ''x''), Str (ascii ''y''), Str (ascii ''z'')]"
proof -
  have c: "iso_conv (Str (ascii ''2021-03-01'')) = Some \<lparr>ts_year = 2021, ts_month = 3, ts_day = 1\<rparr>"
    "iso_conv (Str (ascii ''2020-07-15'')) = Some \<lparr>ts_year = 2020, ts_month = 7, ts_day = 15\<rparr>"
    "iso_conv (Str (ascii ''unknown'')) = None"
    by (simp_all add: iso_conv_def iso_date_good iso_date_good2 iso_date_bad)
  then show ?thesis
    by (simp add: tied_world_def eval_defs tied_raw_def analyzer_0_def store_with_def)
qed

text \<open>
  On the cleaned table of three journals, each with one paper, the top two are the
  first two.
\<close>

theorem analyze_top_journals_correct_witness:
  "clean_data latin1 iso_conv analyzer_0 (store_with tied_raw) = (tied_world, Inr 2) \<and>
   analyze_top_journals (objs tied_world 2) (int 2) = Inr [(Str (ascii ''x''), 1), (Str (ascii ''y''), 1)] \<and>
   (\<exists>journals res.
      getitem (objs tied_world 2) ''journal_clean'' = Some journals \<and>
      analyze_top_journals (objs tied_world 2) (int 2) = Inr res \<and>
      length res \<le> 2 \<and> count_desc res \<and> distinct (map fst res) \<and>
      (\<forall>(j, k)\<in>set res. j \<noteq> NA \<and> k = count_list journals j))"
proof -
  have "analyze_top_journals (objs tied_world 2) (int 2) = Inr [(Str (ascii ''x''), 1), (Str (ascii ''y''), 1)]"
    by (simp add: analyze_top_journals_def tied_journals head_def value_counts_def
        dropna_def counter_def by_count_desc_def map_default.simps ascii_def)
  with analyze_top_journals_correct [OF tied_world_run(1), of 2] tied_world_run(1)
  show ?thesis by blast
qed

section \<open>Publications by year\<close>

lemma num_val_inj: "is_number a \<Longrightarrow> is_number b \<Longrightarrow> num_val a = num_val b \<Longrightarrow> a = b"
  by (cases a; cases b) (auto simp: is_number_def)

lemma is_number_iff: "is_number k \<longleftrightarrow> (\<exists>y. k = Num y)"
  by (cases k) (auto simp: is_number_def)

lemma sorted_keys_strict:
  assumes "distinct (map fst kv)" and "\<forall>(k, c)\<in>set kv. is_number k"
  shows "sorted_wrt (\<lambda>a b. num_val (fst a) < num_val (fst b)) (sort_key (\<lambda>(k, c). num_val k) kv)"
proof -
  let ?s = "sort_key (\<lambda>(k, c). num_val k) kv"
  have s: "sorted (map (\<lambda>(k, c). num_val k) ?s)" by (rule sorted_sort_key)
  have d: "distinct (map fst ?s)" using assms(1) by (simp add: distinct_map_fst_sort_key)
  have "inj_on num_val (set (map fst ?s))"
    using assms(2) by (fastforce simp: inj_on_def intro: num_val_inj)
  with d have "distinct (map num_val (map fst ?s))"
    unfolding distinct_map [of num_val "map fst ?s"] by blast
  then have "distinct (map (\<lambda>(k, c). num_val k) ?s)" by (simp add: case_prod_unfold comp_def)
  with s have "sorted_wrt (<) (map (\<lambda>(k, c). num_val k) ?s)" by (simp add: strict_sorted_iff)
  then show ?thesis by (simp add: sorted_wrt_map case_prod_unfold)
qed

lemma analyze_publications_props:
  assumes y: "getitem f ''publication_year'' = Some years"
    and n: "\<forall>x\<in>set years. is_number x"
  shows "\<exists>res. analyze_publications_over_time f = Inr res \<and>
           keys_at_least 2010 res \<and> keys_increasing res \<and>
           (\<forall>(k, c)\<in>set res. c = count_list years k) \<and>
           (\<forall>y. 2010 \<le> y \<and> Num y \<in> set years \<longrightarrow> (Num y, count_list years (Num y)) \<in> set res)"
proof -
  let ?vc = "value_counts years"
  let ?yc = "sort_key (\<lambda>(k, c). num_val k) ?vc"
  let ?res = "filter (\<lambda>(k, c). 2010 \<le> num_val k) ?yc"
  have keys: "\<forall>(k, c)\<in>set ?vc. is_number k"
    using n value_counts_entry [of _ _ years] by auto
  then have si: "sort_index ?vc = Inr ?yc" by (simp add: sort_index_def list_all_iff)
  have 1: "analyze_publications_over_time f = Inr ?res"
    using y si by (simp add: analyze_publications_over_time_def index_ge_def select_map_filter)
  have 2: "keys_at_least 2010 ?res"
    using keys by (auto simp: keys_at_least_def list_all_iff)
  have "sorted_wrt (\<lambda>a b. num_val (fst a) < num_val (fst b)) ?yc"
    using distinct_value_counts keys by (rule sorted_keys_strict)
  then have "sorted_wrt (\<lambda>a b. num_val (fst a) < num_val (fst b)) ?res"
    by (rule sorted_wrt_filter)
  then have 3: "keys_increasing ?res"
    by (simp add: keys_increasing_def sorted_wrt_map case_prod_unfold)
  have 4: "\<forall>(k, c)\<in>set ?res. c = count_list years k"
    using value_counts_entry [of _ _ years] by auto
  have 5: "\<forall>y. 2010 \<le> y \<and> Num y \<in> set years \<longrightarrow> (Num y, count_list years (Num y)) \<in> set ?res"
    using value_counts_complete [of _ years] by auto
  from 1 2 3 4 5 show ?thesis by blast
qed

lemma clean_data_years_num:
  assumes "clean_data u conv self w = (w', Inr c)"
  shows "\<exists>years. getitem (objs w' c) ''publication_year'' = Some years \<and> (\<forall>x\<in>set years. is_number x)"
proof -
  from assms obtain pt t m ms where
    m: "mode (dt_year (to_datetime conv pt)) = m # ms"
    and cy: "getitem (objs w' c) ''publication_year'' =
       Some (select (notnull t) (fillna (dt_year (to_datetime conv pt)) m))"
    by (rule clean_data_cases)
  have "m \<in> set (mode (dt_year (to_datetime conv pt)))" using m by simp
  then obtain y where "m = Num y" using mode_Num by blast
  have "is_number x" if "x \<in> set (select (notnull t) (fillna (dt_year (to_datetime conv pt)) m))" for x
  proof -
    from that have "x \<in> set (fillna (dt_year (to_datetime conv pt)) (Num y))"
      using set_select [of "notnull t" "fillna (dt_year (to_datetime conv pt)) m"] \<open>m = Num y\<close> by auto
    then show ?thesis using fillna_dt_year_Num by (auto simp: is_number_iff)
  qed
  with cy show ?thesis by blast
qed

text \<open>
  Claim C7 as amended: \<open>analyze_publications_over_time\<close> takes no minimum year; its
  threshold is the constant 2010. For every cleaned table it returns entries whose
  keys are years of at least 2010 in strictly increasing order, each with the number
  of cleaned rows of that year, and every year of at least 2010 in the table is among
  them.
\<close>

theorem analyze_publications_from_2010:
  assumes "clean_data u conv self w = (w', Inr c)"
  shows "\<exists>years res.
           getitem (objs w' c) ''publication_year'' = Some years \<and>
           analyze_publications_over_time (objs w' c) = Inr res \<and>
           keys_at_least 2010 res \<and> keys_increasing res \<and>
           (\<forall>(k, n)\<in>set res. n = count_list years k) \<and>
           (\<forall>y. 2010 \<le> y \<and> Num y \<in> set years \<longrightarrow> (Num y, count_list years (Num y)) \<in> set res)"
proof -
  from clean_data_years_num [OF assms] obtain years where
    y: "getitem (objs w' c) ''publication_year'' = Some years" and n: "\<forall>x\<in>set years. is_number x"
    by blast
  from analyze_publications_props [OF y n] y show ?thesis by blast
qed

lemma example_years: "getitem (objs example_world 2) ''publication_year'' = Some [Num 2021]"
  by (simp add: example_world_run(2) example_clean_def getitem_def)

lemmas count_eval = value_counts_def dropna_def counter_def by_count_desc_def map_default.simps
  sort_index_def is_number_def index_ge_def select_def

text \<open>
  On the cleaned example table the result is the year 2021 with one row.
\<close>

theorem analyze_publications_from_2010_witness:
  "clean_data latin1 iso_conv analyzer_0 (store_with example_raw) = (example_world, Inr 2) \<and>
   analyze_publications_over_time (objs example_world 2) = Inr [(Num 2021, 1)] \<and>
   (\<exists>years res.
      getitem (objs example_world 2) ''publication_year'' = Some years \<and>
      analyze_publications_over_time (objs example_world 2) = Inr res \<and>
      keys_at_least 2010 res \<and> keys_increasing res \<and>
      (\<forall>(k, n)\<in>set res. n = count_list years k) \<and>
      (\<forall>y. 2010 \<le> y \<and> Num y \<in> set years \<longrightarrow> (Num y, count_list years (Num y)) \<in> set res))"
proof -
  have "analyze_publications_over_time (objs example_world 2) = Inr [(Num 2021, 1)]"
    by (simp add: analyze_publications_over_time_def example_years count_eval)
  with analyze_publications_from_2010 [OF example_world_run(1)] example_world_run(1)
  show ?thesis by blast
qed

lemma iso_date_old: "iso_date (ascii ''2012-05-05'') = Some \<lparr>ts_year = 2012, ts_month = 5, ts_day = 5\<rparr>"
  by (simp add: ascii_def iso_date_def digit_val_def is_digit_def days_in_month_def)

lemma old_world_run:
  "clean_data latin1 iso_conv analyzer_0 (store_with old_raw) = (old_world, Inr 2)"
  "getitem (objs old_world 2) ''publication_year'' = Some [Num 2012]"
proof -
  have c: "iso_conv (Str (ascii ''2012-05-05'')) = Some \<lparr>ts_year = 2012, ts_month = 5, ts_day = 5\<rparr>"
    by (simp add: iso_conv_def iso_date_old)
  have "snd (clean_data latin1 iso_conv analyzer_0 (store_with old_raw)) = Inr 2"
    using c by (simp add: eval_defs old_raw_def analyzer_0_def store_with_def)
  then show "clean_data latin1 iso_conv analyzer_0 (store_with old_raw) = (old_world, Inr 2)"
    by (simp add: old_world_def prod_eq_iff)
  show "getitem (objs old_world 2) ''publication_year'' = Some [Num 2012]"
    using c by (simp add: old_world_def eval_defs old_raw_def analyzer_0_def store_with_def)
qed

text \<open>
  Claim C7 says that every key is at least the requested minimum year. The function
  cannot be given one: for a table with one paper of 2012 it returns the year 2012,
  which is below a requested minimum of 2015.
\<close>

theorem analyze_publications_ignores_min_year:
  "clean_data latin1 iso_conv analyzer_0 (store_with old_raw) = (old_world, Inr 2) \<and>
   analyze_publications_over_time (objs old_world 2) = Inr [(Num 2012, 1)] \<and>
   \<not> keys_at_least 2015 [(Num 2012, 1)]"
proof -
  have "analyze_publications_over_time (objs old_world 2) = Inr [(Num 2012, 1)]"
    by (simp add: analyze_publications_over_time_def old_world_run(2) count_eval)
  moreover have "\<not> keys_at_least 2015 [(Num 2012, 1)]"
    by (simp add: keys_at_least_def)
  ultimately show ?thesis using old_world_run(1) by blast
qed

section \<open>The regular expression finds the whole words\<close>

lemma is_alpha_word: "is_alpha c \<Longrightarrow> is_word u c"
  by (auto simp: is_word_def is_alpha_def)

lemma runs_from_eq:
  "runs_from P cur s =
     (if cur @ takeWhile P s = [] then [] else [cur @ takeWhile P s]) @ runs P (dropWhile P s)"
proof (induction s arbitrary: cur)
  case Nil
  show ?case by (simp add: runs_def)
next
  case (Cons c cs)
  show ?case
  proof (cases "P c")
    case True
    then show ?thesis using Cons [of "cur @ [c]"] by simp
  next
    case False
    then show ?thesis by (simp add: runs_def)
  qed
qed

lemma runs_skip: "\<not> P c \<Longrightarrow> runs P (c # cs) = runs P cs"
  by (simp add: runs_def)

lemma runs_eq:
  "runs P s = (if takeWhile P s = [] then [] else [takeWhile P s]) @ runs P (dropWhile P s)"
  using runs_from_eq [of P "[]" s] by (simp add: runs_def)

lemma whole_words_Nil [simp]: "whole_words u [] = []"
  by (simp add: whole_words_def runs_def)

lemma whole_words_skip: "\<not> is_word u c \<Longrightarrow> whole_words u (c # cs) = whole_words u cs"
  by (simp add: whole_words_def runs_skip)

lemma whole_words_eq:
  "whole_words u s =
     (if whole_word (takeWhile (is_word u) s) then [takeWhile (is_word u) s] else [])
     @ whole_words u (dropWhile (is_word u) s)"
proof -
  have "\<not> whole_word []" by (simp add: whole_word_def)
  then show ?thesis
    unfolding whole_words_def by (subst runs_eq) auto
qed

lemma takeWhile_weaker:
  "(\<And>x. P x \<Longrightarrow> Q x) \<Longrightarrow> takeWhile Q s = takeWhile P s @ takeWhile Q (dropWhile P s)"
  by (induction s) auto

lemma alpha_prefix_of_word:
  "takeWhile (is_word u) s = takeWhile is_alpha s @ takeWhile (is_word u) (dropWhile is_alpha s)"
  by (rule takeWhile_weaker) (rule is_alpha_word)

lemma whole_word_takeWhile:
  "whole_word (takeWhile (is_word u) s) \<longleftrightarrow>
     3 \<le> length (takeWhile is_alpha s) \<and>
     (dropWhile is_alpha s = [] \<or> \<not> is_word u (hd (dropWhile is_alpha s)))"
proof -
  let ?u = "takeWhile is_alpha s" and ?r = "dropWhile is_alpha s"
  have v: "takeWhile (is_word u) s = ?u @ takeWhile (is_word u) ?r" by (rule alpha_prefix_of_word)
  have u: "list_all is_alpha ?u" by (simp add: list_all_iff) (meson set_takeWhileD)
  have r: "?r \<noteq> [] \<Longrightarrow> \<not> is_alpha (hd ?r)" by (rule hd_dropWhile)
  show ?thesis
  proof (cases ?r)
    case Nil
    with v have e: "takeWhile (is_word u) s = ?u" by simp
    have "whole_word ?u \<longleftrightarrow> 3 \<le> length ?u" using u by (simp add: whole_word_def)
    with e Nil show ?thesis by simp
  next
    case (Cons c cs)
    with r have c: "\<not> is_alpha c" by simp
    have h: "hd ?r = c" using Cons by simp
    show ?thesis
    proof (cases "is_word u c")
      case True
      then have "takeWhile (is_word u) ?r = c # takeWhile (is_word u) cs" using Cons by simp
      with v have "takeWhile (is_word u) s = ?u @ c # takeWhile (is_word u) cs" by simp
      with c have "\<not> whole_word (takeWhile (is_word u) s)" by (simp add: whole_word_def)
      with True h Cons show ?thesis by simp
    next
      case False
      then have "takeWhile (is_word u) ?r = []" using Cons by simp
      with v have e: "takeWhile (is_word u) s = ?u" by simp
      have "whole_word ?u \<longleftrightarrow> 3 \<le> length ?u" using u by (simp add: whole_word_def)
      with e False h Cons show ?thesis by simp
    qed
  qed
qed

lemma find_top:
  assumes "\<forall>j. 3 \<le> j \<and> j < k \<longrightarrow> \<not> Q j"
  shows "find Q (rev [3 ..< Suc k]) = (if 3 \<le> k \<and> Q k then Some k else None)"
proof (cases "3 \<le> k")
  case False
  then show ?thesis by simp
next
  case True
  then have r: "rev [3 ..< Suc k] = k # rev [3 ..< k]" by simp
  have "find Q (rev [3 ..< k]) = None"
    using assms by (auto simp: find_None_iff)
  with r True show ?thesis by simp
qed

lemma take_in_run:
  "j \<le> length (takeWhile P s) \<Longrightarrow> take j s = take j (takeWhile P s)"
proof -
  assume j: "j \<le> length (takeWhile P s)"
  have "take j s = take j (takeWhile P s @ dropWhile P s)" by simp
  also have "\<dots> = take j (takeWhile P s)" using j by (simp del: takeWhile_dropWhile_id)
  finally show ?thesis .
qed

lemma last_in_run:
  assumes "0 < j" and "j \<le> length (takeWhile P s)"
  shows "P (last (take j s))"
proof -
  have t: "take j s = take j (takeWhile P s)" using assms(2) by (rule take_in_run)
  have "take j (takeWhile P s) \<noteq> []" using assms by auto
  then have "last (take j (takeWhile P s)) \<in> set (take j (takeWhile P s))" by (rule last_in_set)
  then have "last (take j (takeWhile P s)) \<in> set (takeWhile P s)" by (rule in_set_takeD)
  then show ?thesis using t by (auto dest: set_takeWhileD)
qed

lemma next_in_run:
  assumes "j < length (takeWhile P s)"
  shows "drop j s \<noteq> [] \<and> P (hd (drop j s))"
proof -
  have l: "length (takeWhile P s) \<le> length s" by (rule length_takeWhile_le)
  with assms have js: "j < length s" by simp
  then have h: "hd (drop j s) = s ! j" by (simp add: hd_drop_conv_nth)
  have "takeWhile P s ! j = s ! j" using assms by (rule takeWhile_nth)
  moreover have "takeWhile P s ! j \<in> set (takeWhile P s)" using assms by (rule nth_mem)
  ultimately have "P (s ! j)" by (auto dest: set_takeWhileD)
  with h js show ?thesis by simp
qed

lemma boundary_True: "boundary u True r \<longleftrightarrow> (r = [] \<or> \<not> is_word u (hd r))"
  by (cases r) (auto simp: boundary_def)

lemma takeWhile_stops: "r = [] \<or> \<not> P (hd r) \<Longrightarrow> takeWhile P r = []"
  by (cases r) auto

lemma match_here_eq:
  "match_here u pw s =
     (if \<not> pw \<and> whole_word (takeWhile (is_word u) s) then Some (takeWhile (is_word u) s) else None)"
proof (cases "boundary u pw s")
  case False
  then have "pw \<or> takeWhile (is_word u) s = []"
    by (cases s) (auto simp: boundary_def)
  moreover have "\<not> whole_word []" by (simp add: whole_word_def)
  ultimately show ?thesis using False by (auto simp: match_here_def)
next
  case True
  let ?u = "takeWhile is_alpha s" and ?r = "dropWhile is_alpha s"
  let ?k = "length ?u"
  let ?Q = "\<lambda>k. boundary u (is_word u (last (take k s))) (drop k s)"
  have low: "\<not> ?Q j" if "3 \<le> j \<and> j < ?k" for j
  proof -
    from that have "is_alpha (last (take j s))" using last_in_run [of j is_alpha s] by simp
    then have w: "is_word u (last (take j s))" by (rule is_alpha_word)
    from that have "drop j s \<noteq> [] \<and> is_alpha (hd (drop j s))"
      using next_in_run [of j is_alpha s] by simp
    then have "drop j s \<noteq> [] \<and> is_word u (hd (drop j s))" by (auto intro: is_alpha_word)
    with w show ?thesis by (cases "drop j s") (auto simp: boundary_def)
  qed
  then have f: "find ?Q (rev [3 ..< Suc ?k]) = (if 3 \<le> ?k \<and> ?Q ?k then Some ?k else None)"
    by (intro find_top) blast
  have top: "?Q ?k \<longleftrightarrow> (?r = [] \<or> \<not> is_word u (hd ?r))" if "3 \<le> ?k"
  proof -
    from that have "0 < ?k" by linarith
    then have "is_alpha (last (take ?k s))" by (rule last_in_run) simp
    then have w: "is_word u (last (take ?k s))" by (rule is_alpha_word)
    have d: "drop ?k s = ?r" by (simp add: dropWhile_eq_drop)
    have "?Q ?k = boundary u True ?r" using w d by simp
    then show ?thesis by (simp only: boundary_True)
  qed
  show ?thesis
  proof (cases pw)
    case pw: True
    with True have "takeWhile is_alpha s = []"
      by (cases s) (auto simp: boundary_def dest: is_alpha_word)
    with pw True show ?thesis by (simp add: match_here_def)
  next
    case npw: False
    show ?thesis
    proof (cases "whole_word (takeWhile (is_word u) s)")
      case ww: True
      then have k: "3 \<le> ?k" and e: "?r = [] \<or> \<not> is_word u (hd ?r)"
        by (simp_all add: whole_word_takeWhile)
      from e have "takeWhile (is_word u) ?r = []" by (rule takeWhile_stops)
      then have v: "takeWhile (is_word u) s = ?u" using alpha_prefix_of_word [of u s] by simp
      have "take ?k s = ?u" using take_in_run [of ?k is_alpha s] by simp
      with f k e top [OF k] have "match_here u pw s = Some ?u"
        using True by (simp add: match_here_def)
      with ww npw v show ?thesis by simp
    next
      case nww: False
      then have "\<not> (3 \<le> ?k \<and> (?r = [] \<or> \<not> is_word u (hd ?r)))"
        by (simp add: whole_word_takeWhile)
      with top have "\<not> (3 \<le> ?k \<and> ?Q ?k)" by blast
      with f have "match_here u pw s = None" using True by (simp add: match_here_def)
      with nww show ?thesis by simp
    qed
  qed
qed

lemma findall_whole_words_gen:
  "findall u pw s = whole_words u (if pw then dropWhile (is_word u) s else s)"
proof (induction u pw s rule: findall.induct)
  case (1 u pw s)
  show ?case
  proof (cases s)
    case Nil
    then show ?thesis by (simp add: findall.simps)
  next
    case (Cons c cs)
    show ?thesis
    proof (cases "match_here u pw s")
      case (Some m)
      then have npw: "\<not> pw" and ww: "whole_word (takeWhile (is_word u) s)"
        and m: "m = takeWhile (is_word u) s"
        by (auto simp: match_here_eq split: if_splits)
      from ww have ne: "m \<noteq> []" using m by (auto simp: whole_word_def)
      then have "last m \<in> set (takeWhile (is_word u) s)" using m by auto
      then have lw: "is_word u (last m)" by (auto dest: set_takeWhileD)
      have d: "drop (length m) s = dropWhile (is_word u) s" using m by (simp add: dropWhile_eq_drop)
      have "findall u pw s = m # findall u (is_word u (last m)) (drop (length m) s)"
        using Cons Some by (subst findall.simps) simp
      also have "findall u (is_word u (last m)) (drop (length m) s)
          = whole_words u (if is_word u (last m) then dropWhile (is_word u) (drop (length m) s)
                         else drop (length m) s)"
        by (rule "1.IH"(2) [OF Cons Some])
      also have "\<dots> = whole_words u (dropWhile (is_word u) s)"
        using lw d by (simp add: dropWhile_idem)
      finally have "findall u pw s = m # whole_words u (dropWhile (is_word u) s)" .
      moreover have "whole_words u s = m # whole_words u (dropWhile (is_word u) s)"
        using ww m by (subst whole_words_eq) simp
      ultimately show ?thesis using npw by simp
    next
      case None
      have "findall u pw s = findall u (is_word u c) cs"
        using Cons None by (subst findall.simps) simp
      also have "\<dots> = whole_words u (if is_word u c then dropWhile (is_word u) cs else cs)"
        by (rule "1.IH"(1) [OF Cons None])
      finally have l: "findall u pw s = whole_words u (if is_word u c then dropWhile (is_word u) cs else cs)" .
      show ?thesis
      proof (cases "is_word u c")
        case wc: True
        show ?thesis
        proof (cases pw)
          case True
          with l wc Cons show ?thesis by simp
        next
          case False
          with None have "\<not> whole_word (takeWhile (is_word u) s)"
            by (auto simp: match_here_eq split: if_splits)
          then have "whole_words u s = whole_words u (dropWhile (is_word u) s)"
            by (subst whole_words_eq) simp
          with l wc Cons False show ?thesis by simp
        qed
      next
        case nwc: False
        then have "whole_words u (c # cs) = whole_words u cs" by (rule whole_words_skip)
        with l nwc Cons show ?thesis by simp
      qed
    qed
  qed
qed

lemma findall_whole_words: "findall u False s = whole_words u s"
  by (simp add: findall_whole_words_gen)

section \<open>Word frequency\<close>

lemma first_occ_filter: "first_occ (filter P xs) = filter P (first_occ xs)"
proof (induction xs)
  case Nil
  show ?case by simp
next
  case (Cons x xs)
  show ?case
  proof (cases "P x")
    case True
    with Cons show ?thesis by (simp add: conj_commute)
  next
    case False
    then have "filter (\<lambda>y. y \<noteq> x \<and> P y) (first_occ xs) = filter P (first_occ xs)"
      by (intro filter_cong) auto
    with False Cons show ?thesis by simp
  qed
qed

lemma filter_tally: "filter (\<lambda>(w, c). P w) (tally xs) = tally (filter P xs)"
proof -
  have "filter (\<lambda>(w, c). P w) (tally xs) = map (\<lambda>x. (x, count_list xs x)) (filter P (first_occ xs))"
    by (simp add: tally_def filter_map comp_def)
  also have "\<dots> = map (\<lambda>x. (x, count_list (filter P xs) x)) (filter P (first_occ xs))"
    by (rule map_cong) (simp_all add: count_list_filter)
  finally show ?thesis by (simp add: tally_def first_occ_filter)
qed

lemma analyze_word_frequency_eq:
  assumes "getitem f column = Some xs"
  shows "analyze_word_frequency u f column n = Inr (word_frequency_by (whole_words u) u xs n)"
  using assms
  by (simp add: analyze_word_frequency_def word_frequency_by_def word_tokens_def most_common_def
      counter_tally filter_tally findall_whole_words)

lemma word_tokens_whole:
  "w \<in> set (word_tokens (whole_words u) u xs) \<Longrightarrow> w \<notin> set stop_words \<and> whole_word w"
  by (auto simp: word_tokens_def whole_words_def)

lemma lower_ascii_not_upper: "\<not> is_upper (lower_ascii c)"
  by (auto simp: lower_ascii_def is_upper_def)

lemma lower_from_not_upper:
  assumes "\<forall>b c a. 128 \<le> c \<longrightarrow> list_all (\<lambda>d. \<not> is_upper d) (u_lower u b c a)"
  shows "list_all (\<lambda>d. \<not> is_upper d) (lower_from u before s)"
  using assms
  by (induction s arbitrary: before) (simp_all add: lower_ascii_not_upper)

lemma set_runs_from: "w \<in> set (runs_from P cur s) \<Longrightarrow> set w \<subseteq> set cur \<union> set s"
  by (induction s arbitrary: cur) (fastforce split: if_splits)+

lemma word_tokens_lower:
  assumes "\<forall>b c a. 128 \<le> c \<longrightarrow> list_all (\<lambda>d. \<not> is_upper d) (u_lower u b c a)"
    and "w \<in> set (word_tokens (whole_words u) u xs)"
  shows "list_all (\<lambda>d. \<not> is_upper d) w"
proof -
  let ?s = "lower u (join (ascii '' '') (astype_str (dropna xs)))"
  from assms(2) have "w \<in> set (runs (is_word u) ?s)"
    by (auto simp: word_tokens_def whole_words_def)
  then have "set w \<subseteq> set ?s"
    using set_runs_from [of w "is_word u" "[]"] by (simp add: runs_def)
  moreover have "list_all (\<lambda>d. \<not> is_upper d) ?s"
    unfolding lower_def by (rule lower_from_not_upper [OF assms(1)])
  ultimately show ?thesis by (auto simp: list_all_iff)
qed

lemma count_desc_prefix_top:
  assumes "count_desc kv" and "p \<in> set (take n kv)" and "q \<in> set kv" and "q \<notin> set (take n kv)"
  shows "snd q \<le> snd p"
proof -
  have "kv = take n kv @ drop n kv" by simp
  then have s: "sorted_wrt (\<lambda>a b. snd b \<le> snd a) (take n kv @ drop n kv)"
    using assms(1) by (simp add: count_desc_def)
  have "q \<in> set (take n kv) \<union> set (drop n kv)"
    using assms(3) by (metis append_take_drop_id set_append)
  with assms(4) have "q \<in> set (drop n kv)" by simp
  with s assms(2) show ?thesis unfolding sorted_wrt_append by blast
qed

text \<open>
  Claim C5 as amended: for every table, column of the table and \<open>n\<close>, and whatever the
  Unicode tables are, \<open>analyze_word_frequency\<close> joins the non-null values of the column
  with single spaces, lowercases, and takes as tokens the whole words of letters: the
  maximal runs of word characters (alphanumerics of any script, underscore) that consist
  of at least 3 of the letters \<open>a\<close> to \<open>z\<close>, \<open>A\<close> to \<open>Z\<close> and of nothing else. It drops the stop
  words, tallies the tokens in the order of their first occurrence, and returns the
  first \<open>n\<close> entries of the tally sorted by count, largest first, with equal counts left
  in the order of first occurrence. So the counts never increase along the result, the
  words are distinct, no word is a stop word, every word has at least 3 characters, all
  of them letters of the pattern, every count is the number of occurrences of the word
  among the tokens, and no word left out has a larger count than a word returned. When
  lowercasing a character beyond ASCII never yields one of the letters \<open>A\<close> to \<open>Z\<close>, every
  word returned is in lower case.
\<close>

theorem analyze_word_frequency_whole_words:
  assumes "getitem f column = Some xs"
  shows "\<exists>res. analyze_word_frequency u f column n = Inr res \<and>
           res = take (nat n) (by_count_desc (tally (word_tokens (whole_words u) u xs))) \<and>
           count_desc res \<and> distinct (map fst res) \<and>
           (\<forall>c. filter (\<lambda>p. snd p = c) (by_count_desc (tally (word_tokens (whole_words u) u xs)))
                = filter (\<lambda>p. snd p = c) (tally (word_tokens (whole_words u) u xs))) \<and>
           (\<forall>(w, k)\<in>set res.
              w \<notin> set stop_words \<and> 3 \<le> length w \<and> list_all is_alpha w \<and>
              k = count_list (word_tokens (whole_words u) u xs) w) \<and>
           ((\<forall>b c a. 128 \<le> c \<longrightarrow> list_all (\<lambda>d. \<not> is_upper d) (u_lower u b c a)) \<longrightarrow>
              (\<forall>(w, k)\<in>set res. list_all (\<lambda>d. \<not> is_upper d) w)) \<and>
           (\<forall>p\<in>set res. \<forall>q\<in>set (tally (word_tokens (whole_words u) u xs)).
              q \<notin> set res \<longrightarrow> snd q \<le> snd p)"
proof -
  let ?T = "word_tokens (whole_words u) u xs"
  let ?full = "by_count_desc (tally ?T)"
  let ?res = "take (nat n) ?full"
  have 1: "analyze_word_frequency u f column n = Inr ?res"
    using analyze_word_frequency_eq [OF assms] by (simp add: word_frequency_by_def)
  have full: "count_desc ?full" by (rule count_desc_by_count_desc)
  then have 2: "count_desc ?res" by (rule count_desc_take)
  have "distinct (map fst ?full)"
    by (simp add: by_count_desc_def distinct_map_fst_sort_key)
  then have 3: "distinct (map fst ?res)" by (simp add: take_map [symmetric] distinct_take)
  have 4: "\<forall>c. filter (\<lambda>p. snd p = c) ?full = filter (\<lambda>p. snd p = c) (tally ?T)"
    by (simp add: by_count_desc_stable)
  have mem: "w \<in> set ?T \<and> k = count_list ?T w" if "(w, k) \<in> set ?res" for w k
  proof -
    from that have "(w, k) \<in> set (tally ?T)" by (auto dest!: in_set_takeD)
    then show ?thesis by (auto dest: tally_count)
  qed
  have 5: "\<forall>(w, k)\<in>set ?res. w \<notin> set stop_words \<and> 3 \<le> length w \<and> list_all is_alpha w \<and>
      k = count_list ?T w"
  proof -
    have "w \<notin> set stop_words \<and> 3 \<le> length w \<and> list_all is_alpha w \<and> k = count_list ?T w"
      if "(w, k) \<in> set ?res" for w k
      using mem [OF that] word_tokens_whole [of w u xs] by (simp add: whole_word_def)
    then show ?thesis by blast
  qed
  have 6: "(\<forall>b c a. 128 \<le> c \<longrightarrow> list_all (\<lambda>d. \<not> is_upper d) (u_lower u b c a)) \<longrightarrow>
      (\<forall>(w, k)\<in>set ?res. list_all (\<lambda>d. \<not> is_upper d) w)"
  proof
    assume low: "\<forall>b c a. 128 \<le> c \<longrightarrow> list_all (\<lambda>d. \<not> is_upper d) (u_lower u b c a)"
    have "list_all (\<lambda>d. \<not> is_upper d) w" if "(w, k) \<in> set ?res" for w k
      using mem [OF that] word_tokens_lower [OF low, where w = w and xs = xs] by simp
    then show "\<forall>(w, k)\<in>set ?res. list_all (\<lambda>d. \<not> is_upper d) w" by blast
  qed
  have 7: "\<forall>p\<in>set ?res. \<forall>q\<in>set (tally ?T). q \<notin> set ?res \<longrightarrow> snd q \<le> snd p"
    using count_desc_prefix_top [OF full, of _ "nat n"] by simp
  from 1 2 3 4 5 6 7 show ?thesis by blast
qed

lemmas word_eval = word_frequency_by_def word_tokens_def whole_words_def whole_word_def
  alpha_runs_def runs_def dropna_def astype_str_def lower_def lower_ascii_def is_upper_def
  is_alpha_def is_word_def is_digit_def stop_words_def tally_def by_count_desc_def
  ascii_def

lemma cat_tally:
  "by_count_desc (tally (word_tokens (whole_words latin1) latin1 [Str (ascii ''the cat sat'')])) =
     [(ascii ''cat'', 1), (ascii ''sat'', 1)]"
  by (simp add: word_eval)

lemma cafe_tally:
  "by_count_desc (tally (word_tokens (whole_words latin1) latin1 [Str cafe_title])) =
     [(ascii ''bar'', 1)]"
  by (simp add: word_eval cafe_title_def latin1_def)

lemma latin1_lower_not_upper:
  "\<forall>b c a. 128 \<le> c \<longrightarrow> list_all (\<lambda>d. \<not> is_upper d) (u_lower latin1 b c a)"
  by (simp add: latin1_def is_upper_def)

text \<open>
  The example of C5: for the single title \<open>the cat sat\<close> and \<open>n = 5\<close> the result is
  \<open>cat\<close> and \<open>sat\<close>, each once, both in lower case; for \<open>n = 1\<close> it is \<open>cat\<close>, the first
  of the two, and \<open>sat\<close> is left out. For the title \<open>caf\<close>, e acute, \<open>bar\<close> the result is
  \<open>bar\<close> alone: the e acute is a word character, so that no word boundary follows \<open>caf\<close>.
\<close>

theorem analyze_word_frequency_whole_words_witness:
  "getitem cat_frame ''title'' = Some [Str (ascii ''the cat sat'')] \<and>
   analyze_word_frequency latin1 cat_frame ''title'' 5 = Inr [(ascii ''cat'', 1), (ascii ''sat'', 1)] \<and>
   list_all (\<lambda>d. \<not> is_upper d) (ascii ''cat'') \<and> list_all (\<lambda>d. \<not> is_upper d) (ascii ''sat'') \<and>
   analyze_word_frequency latin1 cat_frame ''title'' 1 = Inr [(ascii ''cat'', 1)] \<and>
   (ascii ''sat'', 1) \<in> set (tally (word_tokens (whole_words latin1) latin1 [Str (ascii ''the cat sat'')])) \<and>
   getitem cafe_frame ''title'' = Some [Str cafe_title] \<and>
   analyze_word_frequency latin1 cafe_frame ''title'' 5 = Inr [(ascii ''bar'', 1)]"
proof -
  have g: "getitem cat_frame ''title'' = Some [Str (ascii ''the cat sat'')]"
    by (simp add: cat_frame_def getitem_def)
  have h: "getitem cafe_frame ''title'' = Some [Str cafe_title]"
    by (simp add: cafe_frame_def getitem_def)
  note t = cat_tally
  note low = latin1_lower_not_upper
  from analyze_word_frequency_whole_words [OF g, where u = latin1 and n = 5] low
  have five: "analyze_word_frequency latin1 cat_frame ''title'' 5 =
        Inr [(ascii ''cat'', 1), (ascii ''sat'', 1)] \<and>
      list_all (\<lambda>d. \<not> is_upper d) (ascii ''cat'') \<and> list_all (\<lambda>d. \<not> is_upper d) (ascii ''sat'')"
    by (simp add: t)
  from analyze_word_frequency_whole_words [OF g, where u = latin1 and n = 1]
  have one: "analyze_word_frequency latin1 cat_frame ''title'' 1 = Inr [(ascii ''cat'', 1)]"
    by (simp add: t)
  from analyze_word_frequency_whole_words [OF h, where u = latin1 and n = 5]
  have cafe: "analyze_word_frequency latin1 cafe_frame ''title'' 5 = Inr [(ascii ''bar'', 1)]"
    by (simp add: cafe_tally)
  have "set (tally (word_tokens (whole_words latin1) latin1 [Str (ascii ''the cat sat'')])) =
      set (by_count_desc (tally (word_tokens (whole_words latin1) latin1 [Str (ascii ''the cat sat'')])))"
    by simp
  then have "(ascii ''sat'', 1) \<in>
      set (tally (word_tokens (whole_words latin1) latin1 [Str (ascii ''the cat sat'')]))"
    by (simp only: t) simp
  with g h five one cafe show ?thesis by simp
qed

text \<open>
  Claim C5 says that the tokens are the alphabetic runs of length at least 3. For the
  title \<open>COVID19 outbreak\<close> the run \<open>covid\<close> is such a run, and the frequency over
  alphabetic runs has it; the program does not return it, whatever the Unicode tables
  are, because no word boundary separates \<open>covid\<close> from the digits.
\<close>

theorem analyze_word_frequency_skips_covid19:
  "getitem covid_frame ''title'' = Some [Str (ascii ''COVID19 outbreak'')] \<and>
   (\<forall>u. analyze_word_frequency u covid_frame ''title'' 5 = Inr [(ascii ''outbreak'', 1)] \<and>
        word_frequency_by alpha_runs u [Str (ascii ''COVID19 outbreak'')] 5 =
          [(ascii ''covid'', 1), (ascii ''outbreak'', 1)])"
proof -
  have g: "getitem covid_frame ''title'' = Some [Str (ascii ''COVID19 outbreak'')]"
    by (simp add: covid_frame_def getitem_def)
  have a: "analyze_word_frequency u covid_frame ''title'' 5 = Inr [(ascii ''outbreak'', 1)]" for u
  proof -
    have "word_frequency_by (whole_words u) u [Str (ascii ''COVID19 outbreak'')] 5 =
        [(ascii ''outbreak'', 1)]"
      by (simp add: word_eval)
    with analyze_word_frequency_eq [OF g, where u = u and n = 5] show ?thesis by simp
  qed
  have b: "word_frequency_by alpha_runs u [Str (ascii ''COVID19 outbreak'')] 5 =
      [(ascii ''covid'', 1), (ascii ''outbreak'', 1)]" for u
    by (simp add: word_eval)
  from g a b show ?thesis by simp
qed

end
